theory Spec2Isabelle
  imports Complex_Main "HOL-Library.Log_Nat" "HOL-Library.Sublist"
begin

section \<open>Python values used by the scoring pipeline\<close>

datatype exn =
    ValueError | JSONDecodeError | OverflowError | TypeError | AttributeError
  | RecursionError | ZeroDivisionError

datatype pyfloat = Finite rat | PosInf | NegInf | NaN

subsection \<open>Binary64 rounding\<close>

definition ilog2 :: "rat \<Rightarrow> int" where
  "ilog2 x = (if 1 \<le> x then bitlen \<lfloor>x\<rfloor> - 1 else - bitlen (\<lceil>1 / x\<rceil> - 1))"

definition rhe :: "rat \<Rightarrow> int" where
  "rhe x = (let f = \<lfloor>x\<rfloor>; d = x - of_int f in
     if d < 1 / 2 then f else if 1 / 2 < d then f + 1 else if even f then f else f + 1)"

definition ulp :: "rat \<Rightarrow> rat" where
  "ulp x = 2 powi (max (ilog2 x) (- 1022) - 52)"

definition rnd_pos :: "rat \<Rightarrow> rat" where
  "rnd_pos x = of_int (rhe (x / ulp x)) * ulp x"

definition round_to_double :: "rat \<Rightarrow> pyfloat" where
  "round_to_double x =
     (if x = 0 then Finite 0
      else let y = rnd_pos \<bar>x\<bar> in
        if 2 powi 1024 \<le> y then (if 0 < x then PosInf else NegInf)
        else Finite (if 0 < x then y else - y))"

definition trunc :: "rat \<Rightarrow> int" where
  "trunc y = (if 0 \<le> y then \<lfloor>y\<rfloor> else \<lceil>y\<rceil>)"

definition py_int :: "pyfloat \<Rightarrow> exn + int" where
  "py_int f = (case f of
      Finite y \<Rightarrow> Inr (trunc y)
    | PosInf \<Rightarrow> Inl OverflowError
    | NegInf \<Rightarrow> Inl OverflowError
    | NaN \<Rightarrow> Inl ValueError)"

definition int_to_float :: "int \<Rightarrow> exn + pyfloat" where
  "int_to_float n = (case round_to_double (of_int n) of
      Finite y \<Rightarrow> Inr (Finite y) | _ \<Rightarrow> Inl OverflowError)"

definition truediv :: "int \<Rightarrow> int \<Rightarrow> exn + pyfloat" where
  "truediv a b =
     (if b = 0 then Inl ZeroDivisionError
      else case round_to_double (of_int a / of_int b) of
          Finite y \<Rightarrow> Inr (Finite y) | _ \<Rightarrow> Inl OverflowError)"

definition fmul :: "pyfloat \<Rightarrow> rat \<Rightarrow> pyfloat" where
  "fmul f k = (case f of Finite y \<Rightarrow> round_to_double (y * k) | _ \<Rightarrow> f)"

subsection \<open>Strings\<close>

definition is_space :: "char \<Rightarrow> bool" where
  "is_space c = (of_char c \<in> {9, 10, 11, 12, 13, 28, 29, 30, 31, 32, 133, 160 :: nat})"

definition strip :: "string \<Rightarrow> string" where
  "strip s = rev (dropWhile is_space (rev (dropWhile is_space s)))"

definition rstrip_dot :: "string \<Rightarrow> string" where
  "rstrip_dot s = rev (dropWhile (\<lambda>c. c = CHR ''.'') (rev s))"

fun contains :: "string \<Rightarrow> string \<Rightarrow> bool" where
  "contains sub [] = (sub = [])"
| "contains sub (c # cs) = (prefix sub (c # cs) \<or> contains sub cs)"

fun split_from :: "string \<Rightarrow> string \<Rightarrow> nat \<Rightarrow> string \<Rightarrow> string list" where
  "split_from sep cur k [] = [cur]"
| "split_from sep cur k (c # cs) =
     (if 0 < k then split_from sep cur (k - 1) cs
      else if prefix sep (c # cs) then cur # split_from sep [] (length sep - 1) cs
      else split_from sep (cur @ [c]) 0 cs)"

definition split :: "string \<Rightarrow> string \<Rightarrow> string list" where
  "split sep s = split_from sep [] 0 s"

definition lower_char :: "char \<Rightarrow> char" where
  "lower_char c = (let n = of_char c :: nat in
     if (65 \<le> n \<and> n \<le> 90) \<or> (192 \<le> n \<and> n \<le> 222 \<and> n \<noteq> 215) then char_of (n + 32) else c)"

definition lower :: "string \<Rightarrow> string" where
  "lower s = map lower_char s"

definition is_digit :: "char \<Rightarrow> bool" where
  "is_digit c = (48 \<le> (of_char c :: nat) \<and> (of_char c :: nat) \<le> 57)"

definition digits_val :: "string \<Rightarrow> nat" where
  "digits_val ds = foldl (\<lambda>a c. 10 * a + (of_char c - 48)) 0 ds"

fun findall_digits :: "string \<Rightarrow> string \<Rightarrow> string list" where
  "findall_digits cur [] = (if cur = [] then [] else [cur])"
| "findall_digits cur (c # cs) =
     (if is_digit c then findall_digits (cur @ [c]) cs
      else if cur = [] then findall_digits [] cs
      else cur # findall_digits [] cs)"

subsection \<open>float(str)\<close>

definition ascii_space :: "char \<Rightarrow> bool" where
  "ascii_space c = (of_char c \<in> {9, 10, 11, 12, 13, 32 :: nat})"

definition strip_ascii :: "string \<Rightarrow> string" where
  "strip_ascii s = rev (dropWhile ascii_space (rev (dropWhile ascii_space s)))"

definition space_to_ascii :: "char \<Rightarrow> char" where
  "space_to_ascii c = (if of_char c \<in> {133, 160 :: nat} then CHR '' '' else c)"

fun underscores_ok :: "char \<Rightarrow> string \<Rightarrow> bool" where
  "underscores_ok prev [] = (prev \<noteq> CHR ''_'')"
| "underscores_ok prev (c # cs) =
     (if c = CHR ''_'' then is_digit prev \<and> underscores_ok c cs
      else if prev = CHR ''_'' then is_digit c \<and> underscores_ok c cs
      else underscores_ok c cs)"

definition split_sign :: "string \<Rightarrow> bool \<times> string" where
  "split_sign s = (case s of
      [] \<Rightarrow> (False, [])
    | c # cs \<Rightarrow> if c = CHR ''-'' then (True, cs) else if c = CHR ''+'' then (False, cs) else (False, s))"

definition ascii_lower :: "char \<Rightarrow> char" where
  "ascii_lower c = (let n = of_char c :: nat in if 65 \<le> n \<and> n \<le> 90 then char_of (n + 32) else c)"

definition parse_inf_or_nan :: "string \<Rightarrow> pyfloat option" where
  "parse_inf_or_nan s = (case split_sign s of (neg, r) \<Rightarrow>
     (let l = map ascii_lower r in
      if l = ''inf'' \<or> l = ''infinity'' then Some (if neg then NegInf else PosInf)
      else if l = ''nan'' then Some NaN
      else None))"

definition decimal_of :: "bool \<Rightarrow> string \<Rightarrow> string \<Rightarrow> int \<Rightarrow> rat" where
  "decimal_of neg ip fp e =
     (if neg then - 1 else 1) * of_nat (digits_val (ip @ fp)) * 10 powi (e - int (length fp))"

definition strtod :: "string \<Rightarrow> rat option" where
  "strtod s = (case split_sign s of (neg, r) \<Rightarrow>
     (let ip = takeWhile is_digit r; r1 = dropWhile is_digit r;
          fp = (case r1 of [] \<Rightarrow> [] | c # t \<Rightarrow> if c = CHR ''.'' then takeWhile is_digit t else []);
          r2 = (case r1 of [] \<Rightarrow> [] | c # t \<Rightarrow> if c = CHR ''.'' then dropWhile is_digit t else r1)
      in if ip = [] \<and> fp = [] then None
         else (case r2 of
             [] \<Rightarrow> Some (decimal_of neg ip fp 0)
           | c # t \<Rightarrow>
               if c = CHR ''e'' \<or> c = CHR ''E'' then
                 (case split_sign t of (eneg, ds) \<Rightarrow>
                    if ds \<noteq> [] \<and> list_all is_digit ds
                    then Some (decimal_of neg ip fp ((if eneg then - 1 else 1) * int (digits_val ds)))
                    else None)
               else None)))"

definition py_float :: "string \<Rightarrow> exn + pyfloat" where
  "py_float s =
     (let t = map space_to_ascii s in
      if \<not> underscores_ok (CHR 0x00) t then Inl ValueError
      else let u = strip_ascii (filter (\<lambda>c. c \<noteq> CHR ''_'') t) in
        (case strtod u of
           Some x \<Rightarrow> Inr (round_to_double x)
         | None \<Rightarrow> (case parse_inf_or_nan u of Some f \<Rightarrow> Inr f | None \<Rightarrow> Inl ValueError)))"

subsection \<open>json.loads\<close>

datatype json =
    JNull | JBool bool | JInt int | JFloat pyfloat | JStr "nat list"
  | JArr "json list" | JObj "(nat list \<times> json) list"

datatype tok = TLBrace | TRBrace | TLBrack | TRBrack | TComma | TColon | TAtom json | TBad

definition json_ws :: "char \<Rightarrow> bool" where
  "json_ws c = (of_char c \<in> {32, 9, 10, 13 :: nat})"

definition hex_val :: "char \<Rightarrow> nat option" where
  "hex_val c = (let n = of_char c :: nat in
     if 48 \<le> n \<and> n \<le> 57 then Some (n - 48)
     else if 97 \<le> n \<and> n \<le> 102 then Some (n - 87)
     else if 65 \<le> n \<and> n \<le> 70 then Some (n - 55)
     else None)"

definition hex4 :: "string \<Rightarrow> nat option" where
  "hex4 s = (case s of
      a # b # c # d # _ \<Rightarrow>
        (case (hex_val a, hex_val b, hex_val c, hex_val d) of
           (Some x, Some y, Some z, Some w) \<Rightarrow> Some (((x * 16 + y) * 16 + z) * 16 + w)
         | _ \<Rightarrow> None)
    | _ \<Rightarrow> None)"

definition escape_val :: "char \<Rightarrow> nat option" where
  "escape_val e =
     (if e = CHR 0x22 then Some 34 else if e = CHR 0x5C then Some 92
      else if e = CHR ''/'' then Some 47 else if e = CHR ''b'' then Some 8
      else if e = CHR ''f'' then Some 12 else if e = CHR ''n'' then Some 10
      else if e = CHR ''r'' then Some 13 else if e = CHR ''t'' then Some 9
      else None)"

fun scanstring :: "nat \<Rightarrow> nat list \<Rightarrow> string \<Rightarrow> (nat list \<times> string) option" where
  "scanstring k acc [] = None"
| "scanstring k acc (c # cs) =
     (if 0 < k then scanstring (k - 1) acc cs
      else if c = CHR 0x22 then Some (acc, cs)
      else if c = CHR 0x5C then
        (case cs of
           [] \<Rightarrow> None
         | e # r \<Rightarrow>
             if e = CHR ''u'' then
               (case hex4 r of
                  None \<Rightarrow> None
                | Some n \<Rightarrow>
                    (let r' = drop 4 r in
                     if 55296 \<le> n \<and> n \<le> 56319 \<and> 6 < length r' \<and> take 2 r' = [CHR 0x5C, CHR ''u'']
                     then (case hex4 (drop 2 r') of
                             None \<Rightarrow> None
                           | Some m \<Rightarrow>
                               if 56320 \<le> m \<and> m \<le> 57343
                               then scanstring 11 (acc @ [65536 + (n - 55296) * 1024 + (m - 56320)]) cs
                               else scanstring 5 (acc @ [n]) cs)
                     else scanstring 5 (acc @ [n]) cs))
             else (case escape_val e of
                     None \<Rightarrow> None
                   | Some v \<Rightarrow> scanstring 1 (acc @ [v]) cs))
      else if (of_char c :: nat) < 32 then None
      else scanstring 0 (acc @ [of_char c]) cs)"

definition match_number :: "string \<Rightarrow> (json \<times> nat) option" where
  "match_number s =
     (let neg = (s \<noteq> [] \<and> hd s = CHR ''-''); r = (if neg then tl s else s) in
      if r = [] \<or> \<not> is_digit (hd r) then None
      else
        let ip = (if hd r = CHR ''0'' then [hd r] else takeWhile is_digit r);
            r1 = drop (length ip) r;
            fp = (case r1 of
                    c # d # t \<Rightarrow> if c = CHR ''.'' \<and> is_digit d then takeWhile is_digit (d # t) else []
                  | _ \<Rightarrow> []);
            r2 = (if fp = [] then r1 else drop (Suc (length fp)) r1);
            ex = (case r2 of
                    [] \<Rightarrow> None
                  | c # t \<Rightarrow>
                      if c = CHR ''e'' \<or> c = CHR ''E'' then
                        (case split_sign t of (eneg, ds) \<Rightarrow>
                           if takeWhile is_digit ds = [] then None
                           else Some (eneg, takeWhile is_digit ds, Suc (length t - length ds) + length (takeWhile is_digit ds)))
                      else None);
            n0 = (if neg then 1 else 0) + length ip + (if fp = [] then 0 else Suc (length fp))
        in (case ex of
              None \<Rightarrow>
                if fp = [] then Some (JInt ((if neg then - 1 else 1) * int (digits_val ip)), n0)
                else Some (JFloat (round_to_double (decimal_of neg ip fp 0)), n0)
            | Some (eneg, ds, n1) \<Rightarrow>
                Some (JFloat (round_to_double
                   (decimal_of neg ip fp ((if eneg then - 1 else 1) * int (digits_val ds)))), n0 + n1)))"

text \<open>The scanner as a lexer: \<open>k\<close> characters of an already recognised token remain to be
  skipped.\<close>

fun lex :: "nat \<Rightarrow> string \<Rightarrow> tok list" where
  "lex k [] = []"
| "lex k (c # cs) =
     (if 0 < k then lex (k - 1) cs
      else if json_ws c then lex 0 cs
      else if c = CHR ''{'' then TLBrace # lex 0 cs
      else if c = CHR ''}'' then TRBrace # lex 0 cs
      else if c = CHR ''['' then TLBrack # lex 0 cs
      else if c = CHR '']'' then TRBrack # lex 0 cs
      else if c = CHR '','' then TComma # lex 0 cs
      else if c = CHR '':'' then TColon # lex 0 cs
      else if c = CHR 0x22 then
        (case scanstring 0 [] cs of
           None \<Rightarrow> [TBad]
         | Some (v, r) \<Rightarrow> TAtom (JStr v) # lex (length cs - length r) cs)
      else if prefix ''null'' (c # cs) then TAtom JNull # lex 3 cs
      else if prefix ''true'' (c # cs) then TAtom (JBool True) # lex 3 cs
      else if prefix ''false'' (c # cs) then TAtom (JBool False) # lex 4 cs
      else if prefix ''NaN'' (c # cs) then TAtom (JFloat NaN) # lex 2 cs
      else if prefix ''Infinity'' (c # cs) then TAtom (JFloat PosInf) # lex 7 cs
      else if prefix ''-Infinity'' (c # cs) then TAtom (JFloat NegInf) # lex 8 cs
      else (case match_number (c # cs) of
              None \<Rightarrow> [TBad]
            | Some (v, n) \<Rightarrow> TAtom v # lex (n - 1) cs))"

datatype frame = FArr "json list" | FObj "(nat list \<times> json) list" "nat list"

datatype pstate =
    ExpectValue "frame list"
  | ArrOpen "frame list"
  | InArr "json list" "frame list"
  | ObjOpen "frame list"
  | ObjKey "(nat list \<times> json) list" "frame list"
  | ObjColon "(nat list \<times> json) list" "nat list" "frame list"
  | InObj "(nat list \<times> json) list" "frame list"
  | Done json
  | Failed exn

definition reduce :: "json \<Rightarrow> frame list \<Rightarrow> pstate" where
  "reduce v st = (case st of
      [] \<Rightarrow> Done v
    | FArr acc # r \<Rightarrow> InArr (acc @ [v]) r
    | FObj ps k # r \<Rightarrow> InObj (ps @ [(k, v)]) r)"

definition value_step :: "nat \<Rightarrow> frame list \<Rightarrow> tok \<Rightarrow> pstate" where
  "value_step limit st t = (case t of
      TAtom v \<Rightarrow> reduce v st
    | TLBrack \<Rightarrow> if length st < limit then ArrOpen st else Failed RecursionError
    | TLBrace \<Rightarrow> if length st < limit then ObjOpen st else Failed RecursionError
    | _ \<Rightarrow> Failed JSONDecodeError)"

definition step :: "nat \<Rightarrow> pstate \<Rightarrow> tok \<Rightarrow> pstate" where
  "step limit s t = (case s of
      ExpectValue st \<Rightarrow> value_step limit st t
    | ArrOpen st \<Rightarrow> (if t = TRBrack then reduce (JArr []) st else value_step limit (FArr [] # st) t)
    | InArr acc st \<Rightarrow>
        (if t = TComma then ExpectValue (FArr acc # st)
         else if t = TRBrack then reduce (JArr acc) st
         else Failed JSONDecodeError)
    | ObjOpen st \<Rightarrow>
        (case t of TRBrace \<Rightarrow> reduce (JObj []) st
         | TAtom (JStr k) \<Rightarrow> ObjColon [] k st
         | _ \<Rightarrow> Failed JSONDecodeError)
    | ObjKey ps st \<Rightarrow>
        (case t of TAtom (JStr k) \<Rightarrow> ObjColon ps k st | _ \<Rightarrow> Failed JSONDecodeError)
    | ObjColon ps k st \<Rightarrow>
        (if t = TColon then ExpectValue (FObj ps k # st) else Failed JSONDecodeError)
    | InObj ps st \<Rightarrow>
        (if t = TComma then ObjKey ps st
         else if t = TRBrace then reduce (JObj ps) st
         else Failed JSONDecodeError)
    | Done v \<Rightarrow> Failed JSONDecodeError
    | Failed e \<Rightarrow> Failed e)"

definition json_loads :: "nat \<Rightarrow> string \<Rightarrow> exn + json" where
  "json_loads limit s = (case foldl (step limit) (ExpectValue []) (lex 0 s) of
      Done v \<Rightarrow> Inr v
    | Failed e \<Rightarrow> Inl e
    | _ \<Rightarrow> Inl JSONDecodeError)"

section \<open>The score parser\<close>

record processor =
  provider :: string
  model :: string

definition clamp :: "int \<Rightarrow> int" where
  "clamp score = max 1 (min 7 score)"

definition is_ValueError :: "exn \<Rightarrow> bool" where
  "is_ValueError e = (e = ValueError \<or> e = JSONDecodeError)"

definition last_part :: "string \<Rightarrow> string \<Rightarrow> string" where
  "last_part sep s = last (split sep s)"

definition answer_part :: "string \<Rightarrow> string" where
  "answer_part result_text =
     (if contains ''My answer is:'' result_text
      then strip (last_part ''My answer is:'' result_text) else result_text)"

definition thinking_config :: "processor \<Rightarrow> bool" where
  "thinking_config p =
     (provider p = ''google'' \<and> (contains ''thinking'' (model p) \<or> prefix ''gemini-2'' (model p)))"

definition final_part :: "string \<Rightarrow> string" where
  "final_part result_text =
     (if contains ''I need to analyze'' result_text \<or> contains ''Let me analyze'' result_text
      then if contains ''Final answer:'' result_text
           then strip (last_part ''Final answer:'' result_text)
           else if contains ''Therefore, the score is'' result_text
           then strip (rstrip_dot (strip (last_part ''Therefore, the score is'' result_text)))
           else result_text
      else result_text)"

definition extract_answer :: "processor \<Rightarrow> string \<Rightarrow> string" where
  "extract_answer p result_text =
     (let t1 = answer_part result_text;
          t2 = (if thinking_config p then final_part t1 else t1)
      in strip t2)"

definition int_of_float_str :: "string \<Rightarrow> exn + int" where
  "int_of_float_str s = (case py_float s of Inl e \<Rightarrow> Inl e | Inr f \<Rightarrow> py_int f)"

definition float_of_json :: "json \<Rightarrow> exn + pyfloat" where
  "float_of_json v = (case v of
      JInt n \<Rightarrow> int_to_float n
    | JFloat f \<Rightarrow> Inr f
    | JBool b \<Rightarrow> Inr (Finite (if b then 1 else 0))
    | JStr cps \<Rightarrow> if list_all (\<lambda>c. c < 256) cps then py_float (map char_of cps) else Inl ValueError
    | _ \<Rightarrow> Inl TypeError)"

definition score_of_json :: "json \<Rightarrow> exn + int" where
  "score_of_json result = (case result of
      JObj ps \<Rightarrow>
        (case float_of_json (case map_of (rev ps) (map of_char ''score'') of None \<Rightarrow> JInt 4 | Some v \<Rightarrow> v) of
           Inl e \<Rightarrow> Inl e
         | Inr f \<Rightarrow> py_int f)
    | _ \<Rightarrow> Inl AttributeError)"

definition score_keywords :: "(string \<times> int) list" where
  "score_keywords =
     [(''extremely relevant'', 7), (''very relevant'', 6), (''moderately relevant'', 5),
      (''somewhat relevant'', 4), (''slightly relevant'', 3), (''very slightly relevant'', 2),
      (''not relevant'', 1)]"

fun find_keyword :: "string \<Rightarrow> int option \<Rightarrow> (string \<times> int) list \<Rightarrow> int option" where
  "find_keyword lower_text found_score [] = found_score"
| "find_keyword lower_text found_score ((keyword, score_value) # rest) =
     find_keyword lower_text
       (if contains keyword lower_text
        then (case found_score of
                None \<Rightarrow> Some score_value
              | Some f \<Rightarrow> if f < score_value then Some score_value else found_score)
        else found_score) rest"

definition from_keywords :: "string \<Rightarrow> int" where
  "from_keywords result_text =
     (case find_keyword (lower result_text) None score_keywords of Some found_score \<Rightarrow> found_score | None \<Rightarrow> 4)"

definition from_json :: "nat \<Rightarrow> string \<Rightarrow> exn + int" where
  "from_json limit result_text = (case json_loads limit result_text of
      Inr result \<Rightarrow> (case score_of_json result of Inl e \<Rightarrow> Inl e | Inr score \<Rightarrow> Inr (clamp score))
    | Inl e \<Rightarrow> if e = JSONDecodeError then Inr (from_keywords result_text) else Inl e)"

definition from_regex :: "nat \<Rightarrow> string \<Rightarrow> exn + int" where
  "from_regex limit result_text = (case findall_digits [] result_text of
      [] \<Rightarrow> from_json limit result_text
    | n # _ \<Rightarrow> (case int_of_float_str n of
          Inr score \<Rightarrow> Inr (clamp score)
        | Inl e \<Rightarrow> if is_ValueError e then from_json limit result_text else Inl e))"

definition parse_body :: "processor \<Rightarrow> nat \<Rightarrow> string \<Rightarrow> exn + int" where
  "parse_body p limit result_text =
     (if result_text = [] \<or> strip result_text = [] then Inr 4
      else let t = extract_answer p result_text in
        (case int_of_float_str t of
           Inr score \<Rightarrow> Inr (clamp score)
         | Inl e \<Rightarrow> if is_ValueError e then from_regex limit t else Inl e))"

definition parse_result :: "processor \<Rightarrow> nat \<Rightarrow> string \<Rightarrow> exn + int" where
  "parse_result p limit result_text = (case parse_body p limit result_text of
      Inr score \<Rightarrow> Inr score
    | Inl e \<Rightarrow> Inr 4)"

subsection \<open>Decimal numerals, as the specification speaks of them\<close>

text \<open>
  A decimal representation: an optional minus sign, digits, and an optional fraction.
  \<open>decimal_value\<close> is the real number it denotes.
\<close>

definition decimal_text :: "bool \<Rightarrow> string \<Rightarrow> string \<Rightarrow> string" where
  "decimal_text neg ip fp = (if neg then ''-'' else []) @ ip @ (if fp = [] then [] else CHR ''.'' # fp)"

definition decimal_value :: "bool \<Rightarrow> string \<Rightarrow> string \<Rightarrow> rat" where
  "decimal_value neg ip fp =
     (if neg then - 1 else 1) * (of_nat (digits_val ip) + of_nat (digits_val fp) / 10 ^ length fp)"

definition numeric_char :: "char \<Rightarrow> bool" where
  "numeric_char c = (is_digit c \<or> c = CHR ''-'' \<or> c = CHR ''.'')"

section \<open>Provider calls and their retry loops\<close>

datatype pyval = Num rat | Str string

















definition get_relevance_score :: "string \<Rightarrow> exn + pyval \<Rightarrow> pyval" where
  "get_relevance_score prov returned =
     (if prov \<in> {''openai'', ''anthropic'', ''google'', ''deepseek'', ''mistral'', ''cohere'', ''azure-openai''}
      then (case returned of Inr relevance_score \<Rightarrow> relevance_score | Inl e \<Rightarrow> Num 0)
      else Num 0)"

section \<open>The batch orchestrator\<close>

record row =
  title :: string
  abstract :: string
  row_keywords :: string
  categories :: string

record scored =
  source :: row
  relevance_score :: pyval
  is_relevant :: bool
  iteration :: int

record params =
  topic :: string
  prompt_template :: "string option"
  threshold :: rat
  max_records :: int
  iterations :: int

datatype scoring_request =
    WithPrompt string string string string string string
  | WithoutPrompt string string string string string

record env =
  load_excel_data :: "exn + row list"
  scorer :: "int \<Rightarrow> nat \<Rightarrow> scoring_request \<Rightarrow> pyval option"
  cancel_at :: "nat option"

datatype log =
    Starting | ReadingExcel | TotalFound nat | EachRecord int | MaxRecords int nat
  | StartingIteration int int | Cancelled | MaxReached int int | Skipping nat int
  | Processing int int nat nat string | InputLog | PromptLog | ResponseLog
  | Evaluation int string pyval bool | WritingResults | Completed nat int int

datatype error_message = NoDataFound | ProcessingError exn

datatype signal =
    progress_update log
  | progress_percentage int
  | file_processed string pyval bool int
  | processing_complete int nat
  | error_occurred error_message

record model_info =
  total_records :: nat
  processed_records :: nat
  relevant_records :: nat
  info_iterations :: int

record run_state =
  processed_data :: "scored list"
  relevant_count :: nat
  completed_tasks :: nat
  polls :: nat
  requested :: "(int \<times> nat) list"
  signals :: "signal list"
  saved :: "(scored list \<times> model_info) option"

datatype flow = Normal | Raising exn | Blocked

definition initial :: run_state where
  "initial = \<lparr>processed_data = [], relevant_count = 0, completed_tasks = 0, polls = 0,
     requested = [], signals = [], saved = None\<rparr>"

definition emit :: "signal \<Rightarrow> run_state \<Rightarrow> run_state" where
  "emit s st = st\<lparr>signals := signals st @ [s]\<rparr>"

definition terminate_flag :: "env \<Rightarrow> run_state \<Rightarrow> bool" where
  "terminate_flag e st = (case cancel_at e of None \<Rightarrow> False | Some k \<Rightarrow> k \<le> polls st)"

definition polled :: "run_state \<Rightarrow> run_state" where
  "polled st = st\<lparr>polls := polls st + 1\<rparr>"

fun join :: "string \<Rightarrow> string list \<Rightarrow> string" where
  "join sep [] = []"
| "join sep [x] = x"
| "join sep (x # y # ys) = x @ sep @ join sep (y # ys)"

definition replace :: "string \<Rightarrow> string \<Rightarrow> string \<Rightarrow> string" where
  "replace old new s = join new (split old s)"

definition custom_prompt :: "params \<Rightarrow> string \<Rightarrow> row \<Rightarrow> string" where
  "custom_prompt p template r =
     replace ''{CATEGORIES}'' (categories r)
       (replace ''{TOPIC}'' (topic p)
         (replace ''{KEYWORDS}'' (row_keywords r)
           (replace ''{ABSTRACT}'' (abstract r)
             (replace ''{TITLE}'' (title r) template))))"

definition has_template :: "params \<Rightarrow> bool" where
  "has_template p = (case prompt_template p of None \<Rightarrow> False | Some t \<Rightarrow> t \<noteq> [])"

definition request_for :: "params \<Rightarrow> row \<Rightarrow> scoring_request" where
  "request_for p r = (case prompt_template p of
      None \<Rightarrow> WithoutPrompt (title r) (abstract r) (row_keywords r) (topic p) (categories r)
    | Some t \<Rightarrow>
        if t \<noteq> []
        then WithPrompt (title r) (abstract r) (row_keywords r) (topic p) (custom_prompt p t r) (categories r)
        else WithoutPrompt (title r) (abstract r) (row_keywords r) (topic p) (categories r))"

definition progress :: "nat \<Rightarrow> int \<Rightarrow> exn + int" where
  "progress completed total_tasks = (case truediv (int completed) total_tasks of
      Inl e \<Rightarrow> Inl e
    | Inr f \<Rightarrow> py_int (fmul f 100))"

definition meets_threshold :: "pyval \<Rightarrow> rat \<Rightarrow> exn + bool" where
  "meets_threshold score_value thr = (case score_value of
      Num x \<Rightarrow> Inr (thr \<le> x)
    | Str s \<Rightarrow> Inl TypeError)"

definition blank :: "row \<Rightarrow> bool" where
  "blank r = (title r = [] \<and> abstract r = [])"

definition skipped :: "row \<Rightarrow> int \<Rightarrow> scored" where
  "skipped original_row it =
     \<lparr>source = original_row, relevance_score = Num 0, is_relevant = False, iteration = it\<rparr>"

definition skip_record :: "int \<Rightarrow> nat \<Rightarrow> row \<Rightarrow> run_state \<Rightarrow> run_state" where
  "skip_record it i original_row st =
     (let st1 = emit (progress_update (Skipping (i + 1) it)) st
      in if it = 1 then st1\<lparr>processed_data := processed_data st1 @ [skipped original_row it]\<rparr>
         else st1)"

definition append_result :: "int \<Rightarrow> row \<Rightarrow> pyval \<Rightarrow> bool \<Rightarrow> run_state \<Rightarrow> run_state" where
  "append_result it current_row score_value relevant st =
     emit (file_processed (title current_row) score_value relevant it)
       ((emit (progress_update (Evaluation it (title current_row) score_value relevant)) st)
          \<lparr>relevant_count := relevant_count st + (if relevant then 1 else 0),
           processed_data := processed_data st @
             [\<lparr>source = current_row, relevance_score = score_value, is_relevant = relevant,
               iteration = it\<rparr>]\<rparr>)"

definition announce_record ::
  "params \<Rightarrow> nat \<Rightarrow> int \<Rightarrow> nat \<Rightarrow> row \<Rightarrow> run_state \<Rightarrow> run_state" where
  "announce_record p total_rows it i current_row st =
     (let first = (i < 2 \<and> it = 1);
          st1 = emit (progress_update (Processing it (iterations p) (i + 1) total_rows (title current_row))) st;
          st2 = (if first then emit (progress_update InputLog) st1 else st1);
          st3 = (if has_template p \<and> first then emit (progress_update PromptLog) st2 else st2)
      in st3\<lparr>requested := requested st3 @ [(it, i)]\<rparr>)"

definition log_response :: "int \<Rightarrow> nat \<Rightarrow> run_state \<Rightarrow> run_state" where
  "log_response it i st = (if i < 2 \<and> it = 1 then emit (progress_update ResponseLog) st else st)"

definition score_record ::
  "env \<Rightarrow> params \<Rightarrow> nat \<Rightarrow> int \<Rightarrow> nat \<Rightarrow> row \<Rightarrow> run_state \<Rightarrow> flow \<times> run_state" where
  "score_record e p total_rows it i current_row st =
     (case scorer e it i (request_for p current_row) of
        None \<Rightarrow> (Blocked, announce_record p total_rows it i current_row st)
      | Some score_value \<Rightarrow>
          (case meets_threshold score_value (threshold p) of
             Inl ex \<Rightarrow> (Raising ex, log_response it i (announce_record p total_rows it i current_row st))
           | Inr relevant \<Rightarrow>
               (Normal, append_result it current_row score_value relevant
                  (log_response it i (announce_record p total_rows it i current_row st)))))"

definition next_task :: "run_state \<Rightarrow> run_state" where
  "next_task st = st\<lparr>completed_tasks := completed_tasks st + 1\<rparr>"

fun record_loop ::
  "env \<Rightarrow> params \<Rightarrow> nat \<Rightarrow> int \<Rightarrow> int \<Rightarrow> nat \<Rightarrow> row list \<Rightarrow> run_state \<Rightarrow> flow \<times> run_state" where
  "record_loop e p total_rows total_tasks it i [] st = (Normal, st)"
| "record_loop e p total_rows total_tasks it i (r # rows) st =
     (if terminate_flag e st then (Normal, emit (progress_update Cancelled) (polled st))
      else if 0 < max_records p \<and> max_records p \<le> int i
      then (Normal, emit (progress_update (MaxReached (max_records p) it)) (polled st))
      else
        (let st1 = next_task (polled st)
         in case progress (completed_tasks st1) total_tasks of
              Inl ex \<Rightarrow> (Raising ex, st1)
            | Inr pr \<Rightarrow>
                (let st2 = emit (progress_percentage pr) st1
                 in if blank r
                    then record_loop e p total_rows total_tasks it (i + 1) rows (skip_record it i r st2)
                    else (case score_record e p total_rows it i r st2 of
                            (Normal, st3) \<Rightarrow> record_loop e p total_rows total_tasks it (i + 1) rows st3
                          | other \<Rightarrow> other))))"

fun iteration_loop ::
  "env \<Rightarrow> params \<Rightarrow> row list \<Rightarrow> int \<Rightarrow> int list \<Rightarrow> run_state \<Rightarrow> flow \<times> run_state" where
  "iteration_loop e p data total_tasks [] st = (Normal, st)"
| "iteration_loop e p data total_tasks (it # its) st =
     (if terminate_flag e st then (Normal, emit (progress_update Cancelled) (polled st))
      else (case record_loop e p (length data) total_tasks it 0 data
                   (emit (progress_update (StartingIteration it (iterations p))) (polled st)) of
              (Normal, st1) \<Rightarrow> iteration_loop e p data total_tasks its st1
            | other \<Rightarrow> other))"

definition effective_total :: "params \<Rightarrow> nat \<Rightarrow> int" where
  "effective_total p total_rows =
     (if 0 < max_records p \<and> max_records p < int total_rows then max_records p else int total_rows)"

definition announce :: "params \<Rightarrow> nat \<Rightarrow> run_state \<Rightarrow> run_state" where
  "announce p total_rows st =
     (let st1 = emit (progress_update (EachRecord (iterations p)))
                  (emit (progress_update (TotalFound total_rows)) st)
      in if 0 < max_records p \<and> max_records p < int total_rows
         then emit (progress_update (MaxRecords (max_records p) total_rows)) st1 else st1)"

definition finish :: "env \<Rightarrow> params \<Rightarrow> row list \<Rightarrow> run_state \<Rightarrow> flow \<times> run_state" where
  "finish e p data st =
     (if terminate_flag e st then (Normal, polled st)
      else
        (let st1 = emit (progress_update WritingResults) (polled st);
             info = \<lparr>total_records = length data,
                     processed_records =
                       length (take (if 0 < max_records p then nat (max_records p) else length data) data),
                     relevant_records = relevant_count st1,
                     info_iterations = iterations p\<rparr>;
             st2 = emit (progress_percentage 100) (st1\<lparr>saved := Some (processed_data st1, info)\<rparr>)
         in if iterations p = 0 then (Raising ZeroDivisionError, st2)
            else (let processed_count = int (length (processed_data st2)) div iterations p
                  in (Normal,
                      emit (processing_complete processed_count (relevant_count st2))
                        (emit (progress_update
                           (Completed (relevant_count st2) processed_count (iterations p))) st2)))))"

definition started :: run_state where
  "started = emit (progress_update ReadingExcel)
     (emit (progress_update Starting) (emit (progress_percentage 0) initial))"

definition run_body :: "env \<Rightarrow> params \<Rightarrow> flow \<times> run_state" where
  "run_body e p = (case load_excel_data e of
      Inl ex \<Rightarrow> (Raising ex, started)
    | Inr data \<Rightarrow>
        if length data = 0 then (Normal, emit (error_occurred NoDataFound) started)
        else (case iteration_loop e p data (effective_total p (length data) * iterations p)
                     [1..iterations p] (announce p (length data) started) of
                (Normal, st) \<Rightarrow> finish e p data st
              | other \<Rightarrow> other))"

definition run :: "env \<Rightarrow> params \<Rightarrow> flow \<times> run_state" where
  "run e p = (case run_body e p of
      (Raising ex, st) \<Rightarrow> (Raising ex, emit (error_occurred (ProcessingError ex)) st)
    | other \<Rightarrow> other)"

subsection \<open>What a run shows\<close>

fun percentage_of :: "signal \<Rightarrow> int list" where
  "percentage_of (progress_percentage v) = [v]"
| "percentage_of s = []"

definition percentages :: "run_state \<Rightarrow> int list" where
  "percentages st = concat (map percentage_of (signals st))"

fun terminal :: "signal \<Rightarrow> bool" where
  "terminal (processing_complete c r) = True"
| "terminal (error_occurred m) = True"
| "terminal s = False"

definition observed :: "env \<Rightarrow> run_state \<Rightarrow> bool" where
  "observed e st = (case cancel_at e of None \<Rightarrow> False | Some k \<Rightarrow> k < polls st)"

text \<open>Signals that neither end a run nor move the progress bar (\<open>quiet\<close>), and signals that
  do not end a run (\<open>calm\<close>).\<close>

definition quiet :: "signal list \<Rightarrow> bool" where
  "quiet new = (\<forall>s \<in> set new. \<not> terminal s \<and> percentage_of s = [])"

definition calm :: "signal list \<Rightarrow> bool" where
  "calm new = (\<forall>s \<in> set new. \<not> terminal s)"

definition selected :: "params \<Rightarrow> nat \<Rightarrow> row list \<Rightarrow> row list" where
  "selected p i rows = (if 0 < max_records p then take (nat (max_records p) - i) rows else rows)"

definition kept :: "params \<Rightarrow> int \<Rightarrow> nat \<Rightarrow> row list \<Rightarrow> row list" where
  "kept p it i rows = filter (\<lambda>r. it = 1 \<or> \<not> blank r) (selected p i rows)"

definition kept_all :: "params \<Rightarrow> row list \<Rightarrow> int list \<Rightarrow> (row \<times> int) list" where
  "kept_all p data its = concat (map (\<lambda>it. map (\<lambda>r. (r, it)) (kept p it 0 data)) its)"

definition blank_ok :: "scored \<Rightarrow> bool" where
  "blank_ok x = (blank (source x) \<longrightarrow> iteration x = 1 \<and> relevance_score x = Num 0 \<and> \<not> is_relevant x)"

section \<open>Facts about binary64 rounding\<close>

lemma bitlen_ge1: "0 < n \<Longrightarrow> 1 \<le> bitlen n"
  using bitlen_eq_zero_iff[of n] bitlen_nonneg[of n] by linarith

lemma ilog2_ge1:
  assumes "1 \<le> x"
  shows "2 powi ilog2 x \<le> x" and "x < 2 powi (ilog2 x + 1)"
proof -
  define n where "n = \<lfloor>x\<rfloor>"
  have n: "1 \<le> n" using assms by (simp add: n_def le_floor_iff)
  have b: "1 \<le> bitlen n" using n by (intro bitlen_ge1) simp
  have bb: "2 ^ nat (bitlen n - 1) \<le> n" "n < 2 ^ nat (bitlen n)"
    using bitlen_bounds[of n] n by auto
  have e: "ilog2 x = bitlen n - 1" using assms by (simp add: ilog2_def n_def)
  have "(2::rat) powi (bitlen n - 1) = of_int (2 ^ nat (bitlen n - 1))"
    using b by (simp add: power_int_nonneg_exp)
  also have "\<dots> \<le> of_int n" using bb(1) by (simp only: of_int_le_iff)
  also have "\<dots> \<le> x" by (simp add: n_def)
  finally show "2 powi ilog2 x \<le> x" by (simp add: e)
  have "x < of_int (n + 1)" using floor_correct[of x] by (simp add: n_def)
  also have "\<dots> \<le> of_int (2 ^ nat (bitlen n))"
  proof -
    have "n + 1 \<le> 2 ^ nat (bitlen n)" using bb(2) by linarith
    then show ?thesis by (simp only: of_int_le_iff)
  qed
  also have "\<dots> = (2::rat) powi (bitlen n)" using b by (simp add: power_int_nonneg_exp)
  finally show "x < 2 powi (ilog2 x + 1)" by (simp add: e)
qed

lemma ilog2_lt1:
  assumes "0 < x" "x < 1"
  shows "2 powi ilog2 x \<le> x" and "x < 2 powi (ilog2 x + 1)"
proof -
  define m where "m = \<lceil>1 / x\<rceil> - 1"
  have y: "1 < 1 / x" using assms by (simp add: field_simps)
  have m: "1 \<le> m" using y unfolding m_def by (smt (verit) less_ceiling_iff of_int_1)
  have m1: "of_int m < 1 / x" unfolding m_def by (smt (verit) ceiling_correct of_int_diff of_int_1)
  have m2: "1 / x \<le> of_int (m + 1)" unfolding m_def by (simp add: le_of_int_ceiling)
  have b: "1 \<le> bitlen m" using m by (intro bitlen_ge1) simp
  have bb: "2 ^ nat (bitlen m - 1) \<le> m" "m < 2 ^ nat (bitlen m)"
    using bitlen_bounds[of m] m by auto
  have e: "ilog2 x = - bitlen m" using assms by (simp add: ilog2_def m_def)
  have "of_int (m + 1) \<le> (of_int (2 ^ nat (bitlen m)) :: rat)"
  proof -
    have "m + 1 \<le> 2 ^ nat (bitlen m)" using bb(2) by linarith
    then show ?thesis by (simp only: of_int_le_iff)
  qed
  also have "(of_int (2 ^ nat (bitlen m)) :: rat) = 2 ^ nat (bitlen m)" by simp
  finally have "rat_of_int (m + 1) \<le> 2 ^ nat (bitlen m)" .
  with m2 have "1 / x \<le> 2 ^ nat (bitlen m)" by (rule order_trans)
  then have "1 / 2 ^ nat (bitlen m) \<le> x" using assms(1) by (simp add: field_simps)
  moreover have "(2::rat) powi (- bitlen m) = 1 / 2 ^ nat (bitlen m)"
    using b by (simp add: power_int_minus_divide power_int_nonneg_exp)
  ultimately show "2 powi ilog2 x \<le> x" by (simp add: e)
  have "(2::rat) ^ nat (bitlen m - 1) = of_int (2 ^ nat (bitlen m - 1))" by simp
  also have "\<dots> \<le> of_int m" using bb(1) by (simp only: of_int_le_iff)
  also note m1
  finally have "2 ^ nat (bitlen m - 1) < 1 / x" .
  then have "x < 1 / 2 ^ nat (bitlen m - 1)" using assms(1) by (simp add: field_simps)
  moreover have "(2::rat) powi (- bitlen m + 1) = 1 / 2 ^ nat (bitlen m - 1)"
  proof -
    have "- bitlen m + 1 = - (bitlen m - 1)" by simp
    then show ?thesis using b by (simp only: power_int_minus_divide) (simp add: power_int_nonneg_exp)
  qed
  ultimately show "x < 2 powi (ilog2 x + 1)" by (simp add: e)
qed

lemma ilog2_bounds:
  assumes "0 < x"
  shows "2 powi ilog2 x \<le> x" and "x < 2 powi (ilog2 x + 1)"
  using ilog2_ge1[of x] ilog2_lt1[of x] assms by (cases "1 \<le> x"; simp)+

lemma pow2_less_cancel: "(2::rat) powi a < 2 powi b \<Longrightarrow> a < b"
proof (rule ccontr)
  assume h: "(2::rat) powi a < 2 powi b" and "\<not> a < b"
  then have "b \<le> a" by simp
  then have "(2::rat) powi b \<le> 2 powi a" by (intro power_int_increasing) simp_all
  with h show False by simp
qed

lemma ilog2_unique:
  assumes "0 < x" "2 powi e \<le> x" "x < 2 powi (e + 1)"
  shows "ilog2 x = e"
proof (rule antisym)
  have "(2::rat) powi ilog2 x < 2 powi (e + 1)"
    using ilog2_bounds(1)[OF assms(1)] assms(3) by simp
  then have "ilog2 x < e + 1" by (rule pow2_less_cancel)
  then show "ilog2 x \<le> e" by simp
  have "(2::rat) powi e < 2 powi (ilog2 x + 1)"
    using ilog2_bounds(2)[OF assms(1)] assms(2) by simp
  then have "e < ilog2 x + 1" by (rule pow2_less_cancel)
  then show "e \<le> ilog2 x" by simp
qed

lemma ilog2_mono:
  assumes "0 < x" "x \<le> y"
  shows "ilog2 x \<le> ilog2 y"
proof (rule ccontr)
  assume "\<not> ilog2 x \<le> ilog2 y"
  then have "ilog2 y + 1 \<le> ilog2 x" by simp
  then have "(2::rat) powi (ilog2 y + 1) \<le> 2 powi ilog2 x"
    by (intro power_int_increasing) simp_all
  moreover have "y < 2 powi (ilog2 y + 1)" using ilog2_bounds(2)[of y] assms by simp
  moreover have "2 powi ilog2 x \<le> x" using ilog2_bounds(1)[OF assms(1)] .
  ultimately show False using assms(2) by simp
qed


lemma pow2_add: "(2::rat) powi a * 2 powi b = 2 powi (a + b)"
  by (simp add: power_int_add)

lemma pow2_diff: "(2::rat) powi a / 2 powi b = 2 powi (a - b)"
  by (simp add: power_int_diff)

lemma rhe_of_int: "rhe (of_int n) = n"
  by (simp add: rhe_def)

lemma rhe_floor: "\<lfloor>x\<rfloor> \<le> rhe x" "rhe x \<le> \<lfloor>x\<rfloor> + 1"
  by (simp_all add: rhe_def Let_def)

lemma rhe_mono:
  assumes "x \<le> y"
  shows "rhe x \<le> rhe y"
proof (cases "\<lfloor>x\<rfloor> = \<lfloor>y\<rfloor>")
  case True
  then show ?thesis using assms by (auto simp add: rhe_def Let_def)
next
  case False
  then have "\<lfloor>x\<rfloor> < \<lfloor>y\<rfloor>" using floor_mono[OF assms] by simp
  then show ?thesis using rhe_floor(2)[of x] rhe_floor(1)[of y] by linarith
qed

lemma rhe_near: "\<bar>of_int (rhe x) - x\<bar> \<le> 1 / 2"
proof -
  have "of_int \<lfloor>x\<rfloor> \<le> x" "x < of_int \<lfloor>x\<rfloor> + 1" using floor_correct[of x] by simp_all
  then show ?thesis by (auto simp add: rhe_def Let_def abs_le_iff)
qed

lemma ulp_pos: "0 < ulp x"
  by (simp add: ulp_def)

lemma rnd_pos_nonneg: "0 \<le> x \<Longrightarrow> 0 \<le> rnd_pos x"
proof -
  assume "0 \<le> x"
  then have "0 \<le> x / ulp x" using ulp_pos[of x] by simp
  then have "rhe 0 \<le> rhe (x / ulp x)" by (rule rhe_mono)
  then have "0 \<le> rhe (x / ulp x)" using rhe_of_int[of 0] by simp
  then show ?thesis using ulp_pos[of x] by (simp add: rnd_pos_def)
qed

lemma rnd_pos_eval:
  assumes "2 powi e \<le> x" "x < 2 powi (e + 1)" "- 1022 \<le> e"
  shows "rnd_pos x = of_int (rhe (x / 2 powi (e - 52))) * 2 powi (e - 52)"
proof -
  have "0 < x" using assms(1) by (smt (verit) zero_less_power_int zero_less_numeral order_less_le_trans)
  then have "ilog2 x = e" using assms by (intro ilog2_unique)
  then show ?thesis using assms(3) by (simp add: rnd_pos_def ulp_def max_def)
qed

lemma rnd_pos_mono:
  assumes "0 < x" "x \<le> y"
  shows "rnd_pos x \<le> rnd_pos y"
proof -
  define ex where "ex = max (ilog2 x) (- 1022)"
  define ey where "ey = max (ilog2 y) (- 1022)"
  have y: "0 < y" using assms by simp
  have le: "ex \<le> ey" using ilog2_mono[OF assms] by (simp add: ex_def ey_def)
  have ux: "ulp x = 2 powi (ex - 52)" and uy: "ulp y = 2 powi (ey - 52)"
    by (simp_all add: ulp_def ex_def ey_def)
  show ?thesis
  proof (cases "ex = ey")
    case True
    then have u: "ulp x = ulp y" by (simp add: ux uy)
    have "x / ulp y \<le> y / ulp y" using assms(2) ulp_pos[of y] by (simp add: divide_right_mono)
    then have "rhe (x / ulp y) \<le> rhe (y / ulp y)" by (rule rhe_mono)
    then show ?thesis using ulp_pos[of y] by (simp add: rnd_pos_def u)
  next
    case False
    with le have lt: "ex < ey" by simp
    then have ey': "ey = ilog2 y" by (auto simp add: ex_def ey_def max_def split: if_splits)
    have "x < 2 powi (ilog2 x + 1)" using ilog2_bounds(2)[OF assms(1)] .
    also have "\<dots> \<le> 2 powi (ex + 1)" by (intro power_int_increasing) (simp_all add: ex_def)
    finally have xb: "x < 2 powi (ex + 1)" .
    have "x / ulp x \<le> 2 powi (ex + 1) / 2 powi (ex - 52)"
      using xb ulp_pos[of x] by (simp add: ux divide_right_mono)
    also have "\<dots> = 2 powi (ex + 1 - (ex - 52))" by (simp only: pow2_diff)
    also have "\<dots> = 2 powi 53" by simp
    also have "\<dots> = of_int (2 ^ 53)" by simp
    finally have "rhe (x / ulp x) \<le> rhe (of_int (2 ^ 53))" by (rule rhe_mono)
    then have "rhe (x / ulp x) \<le> 2 ^ 53" by (simp only: rhe_of_int)
    then have "rat_of_int (rhe (x / ulp x)) \<le> of_int (2 ^ 53)" by (simp only: of_int_le_iff)
    then have "rnd_pos x \<le> of_int (2 ^ 53) * 2 powi (ex - 52)"
      using ulp_pos[of x] by (simp add: rnd_pos_def ux mult_right_mono)
    also have "\<dots> = 2 powi 53 * 2 powi (ex - 52)" by simp
    also have "\<dots> = 2 powi (53 + (ex - 52))" by (simp only: pow2_add)
    also have "\<dots> = 2 powi (ex + 1)" by (rule arg_cong[where f = "\<lambda>k. 2 powi k"]) simp
    finally have A: "rnd_pos x \<le> 2 powi (ex + 1)" .
    have "2 powi ey \<le> y" using ilog2_bounds(1)[OF y] by (simp add: ey')
    then have "2 powi ey / 2 powi (ey - 52) \<le> y / ulp y"
      using ulp_pos[of y] by (simp add: uy divide_right_mono)
    moreover have "(2::rat) powi ey / 2 powi (ey - 52) = 2 powi 52" by (simp only: pow2_diff) simp
    moreover have "(2::rat) powi 52 = of_int (2 ^ 52)" by simp
    ultimately have "of_int (2 ^ 52) \<le> y / ulp y" by simp
    then have "rhe (of_int (2 ^ 52)) \<le> rhe (y / ulp y)" by (rule rhe_mono)
    then have "2 ^ 52 \<le> rhe (y / ulp y)" by (simp only: rhe_of_int)
    then have "rat_of_int (2 ^ 52) \<le> of_int (rhe (y / ulp y))" by (simp only: of_int_le_iff)
    then have "of_int (2 ^ 52) * 2 powi (ey - 52) \<le> rnd_pos y"
      using ulp_pos[of y] by (simp add: rnd_pos_def uy mult_right_mono)
    moreover have "of_int (2 ^ 52) * 2 powi (ey - 52) = (2::rat) powi 52 * 2 powi (ey - 52)" by simp
    moreover have "(2::rat) powi 52 * 2 powi (ey - 52) = 2 powi ey" by (simp only: pow2_add) simp
    ultimately have B: "2 powi ey \<le> rnd_pos y" by simp
    have "(2::rat) powi (ex + 1) \<le> 2 powi ey" using lt by (intro power_int_increasing) simp_all
    with A B show ?thesis by linarith
  qed
qed

lemma rnd_pos_representable:
  assumes "0 < n" "n < 2 ^ 53" "- 1074 \<le> s"
  shows "rnd_pos (of_int n * 2 powi s) = of_int n * 2 powi s"
proof -
  define x :: rat where "x = of_int n * 2 powi s"
  define e where "e = ilog2 x"
  define u where "u = max e (- 1022) - 52"
  have "1 \<le> n" using assms(1) by simp
  then have "rat_of_int 1 \<le> of_int n" by (simp only: of_int_le_iff)
  then have n1: "1 \<le> rat_of_int n" by simp
  have "rat_of_int n < of_int (2 ^ 53)" using assms(2) by (simp only: of_int_less_iff)
  then have n2: "rat_of_int n < 2 powi 53" by simp
  have p: "0 < (2::rat) powi s" by simp
  have xl: "2 powi s \<le> x" using n1 p by (simp add: x_def)
  then have x0: "0 < x" using p by linarith
  have "x < 2 powi 53 * 2 powi s" using n2 p by (simp add: x_def)
  then have xu: "x < 2 powi (53 + s)" by (simp only: pow2_add)
  have b: "2 powi e \<le> x" "x < 2 powi (e + 1)" using ilog2_bounds[OF x0] by (simp_all add: e_def)
  have "(2::rat) powi s < 2 powi (e + 1)" using xl b(2) by simp
  then have e0: "s \<le> e" using pow2_less_cancel[of s "e + 1"] by simp
  have "(2::rat) powi e < 2 powi (53 + s)" using b(1) xu by simp
  then have e1: "e - 52 \<le> s" using pow2_less_cancel[of e "53 + s"] by simp
  have us: "u \<le> s" using e1 assms(3) by (simp add: u_def max_def)
  have ulp: "ulp x = 2 powi u" by (simp add: ulp_def u_def e_def)
  have "(2::rat) powi s / 2 powi u = 2 powi (s - u)" by (simp only: pow2_diff)
  also have "\<dots> = 2 ^ nat (s - u)" using us by (simp add: power_int_nonneg_exp)
  finally have q: "(2::rat) powi s / 2 powi u = 2 ^ nat (s - u)" .
  have "x / ulp x = x / 2 powi u" by (simp only: ulp)
  also have "\<dots> = of_int n * 2 powi s / 2 powi u" by (simp only: x_def)
  also have "\<dots> = of_int n * ((2::rat) powi s / 2 powi u)" by simp
  also have "\<dots> = of_int (n * 2 ^ nat (s - u))" by (simp add: q)
  finally have k: "x / ulp x = of_int (n * 2 ^ nat (s - u))" .
  have "rnd_pos x = of_int (rhe (of_int (n * 2 ^ nat (s - u)))) * ulp x"
    by (simp only: rnd_pos_def k)
  also have "\<dots> = x / ulp x * ulp x" by (simp only: rhe_of_int k)
  also have "\<dots> = x" using ulp_pos[of x] by simp
  finally show ?thesis by (simp add: x_def)
qed

lemma rnd_pos_of_int:
  assumes "0 < n" "n < 2 ^ 53"
  shows "rnd_pos (of_int n) = of_int n"
  using rnd_pos_representable[OF assms, of 0] by simp

lemma rnd_pos_0: "rnd_pos 0 = 0"
  by (simp add: rnd_pos_def rhe_def)

lemma rnd_pos_mono0:
  assumes "0 \<le> x" "x \<le> y"
  shows "rnd_pos x \<le> rnd_pos y"
proof (cases "x = 0")
  case True
  then show ?thesis using rnd_pos_nonneg[of y] assms by (simp add: rnd_pos_0)
next
  case False
  then show ?thesis using assms by (intro rnd_pos_mono) simp_all
qed

lemma round_to_double_not_NaN: "round_to_double x \<noteq> NaN"
  by (simp add: round_to_double_def Let_def)

lemma round_to_double_finite:
  assumes "\<bar>x\<bar> \<le> 2 ^ 1023"
  shows "round_to_double x = Finite (if 0 \<le> x then rnd_pos \<bar>x\<bar> else - rnd_pos \<bar>x\<bar>)"
proof -
  have "rnd_pos (of_int 1 * 2 powi 1023) = of_int 1 * 2 powi 1023"
    by (rule rnd_pos_representable) simp_all
  then have r: "rnd_pos (2 ^ 1023) = 2 ^ 1023" by simp
  have "rnd_pos \<bar>x\<bar> \<le> rnd_pos (2 ^ 1023)" using assms by (intro rnd_pos_mono0) simp_all
  then have "rnd_pos \<bar>x\<bar> \<le> 2 ^ 1023" by (simp only: r)
  moreover have "(2::rat) ^ 1023 < 2 ^ 1024" by simp
  ultimately have "rnd_pos \<bar>x\<bar> < 2 ^ 1024" by (rule order_le_less_trans)
  then have "\<not> 2 powi 1024 \<le> rnd_pos \<bar>x\<bar>" by simp
  then show ?thesis by (auto simp add: round_to_double_def Let_def rnd_pos_0)
qed

lemma round_to_double_overflow:
  assumes "2 powi 1024 \<le> x"
  shows "round_to_double x = PosInf"
proof -
  have "rnd_pos (of_int 1 * 2 powi 1024) = of_int 1 * 2 powi 1024"
    by (rule rnd_pos_representable) simp_all
  then have r: "rnd_pos (2 powi 1024) = 2 powi 1024" by (simp only: of_int_1 mult_1)
  have p: "(0::rat) < 2 powi 1024" by (rule zero_less_power_int) simp
  have x: "0 < x" using p assms by (rule order_less_le_trans)
  have "(0::rat) \<le> 2 powi 1024" using p by (rule order_less_imp_le)
  then have "rnd_pos (2 powi 1024) \<le> rnd_pos x" using assms by (rule rnd_pos_mono0)
  then have "2 powi 1024 \<le> rnd_pos x" by (simp only: r)
  moreover have "\<bar>x\<bar> = x" "x \<noteq> 0" using x by simp_all
  ultimately show ?thesis using x unfolding round_to_double_def Let_def by (simp only: if_True if_False)
qed

lemma rhe_eval:
  assumes "of_int k - 1 / 2 < x" "x < of_int k + 1 / 2"
  shows "rhe x = k"
proof -
  have "\<bar>rat_of_int (rhe x) - x\<bar> \<le> 1 / 2" by (rule rhe_near)
  then have "\<bar>rat_of_int (rhe x) - of_int k\<bar> < 1" using assms by (simp add: abs_if split: if_splits)
  then have "\<bar>rat_of_int (rhe x - k)\<bar> < of_int 1" by simp
  then have "\<bar>rhe x - k\<bar> < 1" by (simp only: of_int_abs[symmetric] of_int_less_iff)
  then show ?thesis by simp
qed

lemma rnd_pos_numeral: "(numeral w :: int) < 2 ^ 53 \<Longrightarrow> rnd_pos (numeral w) = numeral w"
  using rnd_pos_of_int[of "numeral w"] by simp

lemma rnd_pos_1: "rnd_pos 1 = 1"
  using rnd_pos_of_int[of 1] by simp

section \<open>Facts about the score parser\<close>

lemmas str_ev = strip_def is_space_def last_part_def split_def rstrip_dot_def
lemmas float_ev = int_of_float_str_def py_float_def Let_def space_to_ascii_def strip_ascii_def
  ascii_space_def strtod_def split_sign_def is_digit_def parse_inf_or_nan_def ascii_lower_def
  decimal_of_def digits_val_def round_to_double_def rnd_pos_numeral rnd_pos_1 py_int_def trunc_def

lemma digits_val_snoc: "digits_val (xs @ [c]) = 10 * digits_val xs + (of_char c - 48)"
  by (simp add: digits_val_def)

lemma digits_val_append: "digits_val (xs @ ys) = digits_val xs * 10 ^ length ys + digits_val ys"
proof (induction ys rule: rev_induct)
  case Nil
  then show ?case by (simp add: digits_val_def)
next
  case (snoc y ys)
  have "digits_val (xs @ ys @ [y]) = 10 * digits_val (xs @ ys) + (of_char y - 48)"
    using digits_val_snoc[of "xs @ ys" y] by simp
  also have "\<dots> = 10 * (digits_val xs * 10 ^ length ys + digits_val ys) + (of_char y - 48)"
    by (simp only: snoc.IH)
  also have "\<dots> = digits_val xs * 10 ^ length (ys @ [y]) + digits_val (ys @ [y])"
    by (simp add: digits_val_snoc algebra_simps)
  finally show ?case by simp
qed

lemma decimal_of_value: "decimal_of neg ip fp 0 = decimal_value neg ip fp"
proof -
  have "(10::rat) powi (- int (length fp)) = 1 / 10 ^ length fp"
    by (simp add: power_int_minus_divide)
  then show ?thesis
    by (simp add: decimal_of_def decimal_value_def digits_val_append field_simps)
qed

lemma contains_set: "contains sub s \<Longrightarrow> set sub \<subseteq> set s"
proof (induction s)
  case Nil
  then show ?case by simp
next
  case (Cons c cs)
  then show ?case using set_mono_prefix[of sub "c # cs"] by auto
qed

lemma strip_id:
  assumes "s \<noteq> []" "\<not> is_space (hd s)" "\<not> is_space (last s)"
  shows "strip s = s"
proof -
  have a: "dropWhile is_space s = s" using assms(1,2) by (cases s) simp_all
  have "rev s \<noteq> []" "\<not> is_space (hd (rev s))" using assms(1,3) by (simp_all add: hd_rev)
  then have "dropWhile is_space (rev s) = rev s" by (cases "rev s") simp_all
  then show ?thesis by (simp add: strip_def a)
qed

lemma strip_ascii_id:
  assumes "s \<noteq> []" "\<not> ascii_space (hd s)" "\<not> ascii_space (last s)"
  shows "strip_ascii s = s"
proof -
  have a: "dropWhile ascii_space s = s" using assms(1,2) by (cases s) simp_all
  have "rev s \<noteq> []" "\<not> ascii_space (hd (rev s))" using assms(1,3) by (simp_all add: hd_rev)
  then have "dropWhile ascii_space (rev s) = rev s" by (cases "rev s") simp_all
  then show ?thesis by (simp add: strip_ascii_def a)
qed

lemma underscores_ok_none:
  "CHR ''_'' \<notin> set s \<Longrightarrow> prev \<noteq> CHR ''_'' \<Longrightarrow> underscores_ok prev s"
  by (induction s arbitrary: prev) auto

lemma numeric_char_facts:
  assumes "numeric_char c"
  shows "\<not> is_space c" "\<not> ascii_space c" "c \<noteq> CHR ''_''" "space_to_ascii c = c"
    "c \<noteq> CHR ''M''" "c \<noteq> CHR ''I''" "c \<noteq> CHR ''L''"
  using assms
  by (auto simp add: numeric_char_def is_digit_def is_space_def ascii_space_def space_to_ascii_def)

lemma decimal_text_chars:
  assumes "list_all is_digit ip" "list_all is_digit fp"
  shows "\<forall>c \<in> set (decimal_text neg ip fp). numeric_char c"
  using assms by (auto simp add: decimal_text_def numeric_char_def list_all_iff)

lemma decimal_text_ends:
  assumes "ip \<noteq> []" "list_all is_digit ip" "list_all is_digit fp"
  shows "decimal_text neg ip fp \<noteq> []"
    and "numeric_char (hd (decimal_text neg ip fp))"
    and "numeric_char (last (decimal_text neg ip fp))"
proof -
  show n: "decimal_text neg ip fp \<noteq> []" using assms(1) by (simp add: decimal_text_def)
  have "hd (decimal_text neg ip fp) \<in> set (decimal_text neg ip fp)" using n by simp
  then show "numeric_char (hd (decimal_text neg ip fp))"
    using decimal_text_chars[OF assms(2,3)] by blast
  have "last (decimal_text neg ip fp) \<in> set (decimal_text neg ip fp)" using n by simp
  then show "numeric_char (last (decimal_text neg ip fp))"
    using decimal_text_chars[OF assms(2,3)] by blast
qed

lemma strtod_decimal_text:
  assumes "ip \<noteq> []" "list_all is_digit ip" "list_all is_digit fp"
  shows "strtod (decimal_text neg ip fp) = Some (decimal_value neg ip fp)"
proof -
  have dg: "\<forall>c \<in> set ip. is_digit c" "\<forall>c \<in> set fp. is_digit c"
    using assms(2,3) by (simp_all add: list_all_iff)
  have nd: "\<not> is_digit (CHR ''.'')" by (simp add: is_digit_def)
  obtain d ds where ip: "ip = d # ds" using assms(1) by (cases ip) auto
  have d: "is_digit d" using dg(1) ip by simp
  then have dn: "d \<noteq> CHR ''-''" "d \<noteq> CHR ''+''" by (auto simp add: is_digit_def)
  have tw2: "takeWhile is_digit fp = fp" "dropWhile is_digit fp = []"
    using dg(2) by simp_all
  show ?thesis
  proof (cases "fp = []")
    case True
    have sp: "split_sign (decimal_text neg ip []) = (neg, ip)"
      using dn by (simp add: split_sign_def decimal_text_def ip)
    have tw: "takeWhile is_digit ip = ip" "dropWhile is_digit ip = []"
      using dg(1) by simp_all
    show ?thesis
      using assms(1) by (simp add: strtod_def sp tw Let_def True decimal_of_value[symmetric])
  next
    case False
    have sp: "split_sign (decimal_text neg ip fp) = (neg, ip @ CHR ''.'' # fp)"
      using dn by (simp add: split_sign_def decimal_text_def ip False)
    have tw: "takeWhile is_digit (ip @ CHR ''.'' # fp) = ip"
      using dg nd by (simp add: takeWhile_append2 takeWhile_tail)
    have dw: "dropWhile is_digit (ip @ CHR ''.'' # fp) = CHR ''.'' # fp"
      using dg nd by (simp add: dropWhile_append2)
    show ?thesis
      using assms(1) by (simp add: strtod_def sp tw dw tw2 Let_def decimal_of_value[symmetric])
  qed
qed

lemma py_float_decimal_text:
  assumes "ip \<noteq> []" "list_all is_digit ip" "list_all is_digit fp"
  shows "py_float (decimal_text neg ip fp) = Inr (round_to_double (decimal_value neg ip fp))"
proof -
  let ?s = "decimal_text neg ip fp"
  note ch = decimal_text_chars[OF assms(2,3), of neg]
  note en = decimal_text_ends[OF assms, of neg]
  have m: "map space_to_ascii ?s = ?s"
    using ch numeric_char_facts(4) by (simp add: map_idI)
  have nu: "CHR ''_'' \<notin> set ?s" using ch numeric_char_facts(3) by blast
  have u: "underscores_ok (CHR 0x00) ?s" by (rule underscores_ok_none[OF nu]) simp
  have f: "filter (\<lambda>c. c \<noteq> CHR ''_'') ?s = ?s" using nu by (simp add: filter_id_conv) metis
  have st: "strip_ascii ?s = ?s"
    using en numeric_char_facts(2) by (intro strip_ascii_id) auto
  show ?thesis
    by (simp add: py_float_def Let_def m u f st strtod_decimal_text[OF assms])
qed

lemma extract_answer_decimal_text:
  assumes "ip \<noteq> []" "list_all is_digit ip" "list_all is_digit fp"
  shows "extract_answer p (decimal_text neg ip fp) = decimal_text neg ip fp"
proof -
  let ?s = "decimal_text neg ip fp"
  note ch = decimal_text_chars[OF assms(2,3), of neg]
  note en = decimal_text_ends[OF assms, of neg]
  have a: "\<not> contains ''My answer is:'' ?s"
  proof
    assume "contains ''My answer is:'' ?s"
    then have "CHR ''M'' \<in> set ?s" using contains_set by fastforce
    then show False using ch numeric_char_facts(5) by blast
  qed
  have b: "\<not> contains ''I need to analyze'' ?s"
  proof
    assume "contains ''I need to analyze'' ?s"
    then have "CHR ''I'' \<in> set ?s" using contains_set by fastforce
    then show False using ch numeric_char_facts(6) by blast
  qed
  have c: "\<not> contains ''Let me analyze'' ?s"
  proof
    assume "contains ''Let me analyze'' ?s"
    then have "CHR ''L'' \<in> set ?s" using contains_set by fastforce
    then show False using ch numeric_char_facts(7) by blast
  qed
  have st: "strip ?s = ?s" using en numeric_char_facts(1) by (intro strip_id) auto
  show ?thesis
    by (simp add: extract_answer_def Let_def answer_part_def final_part_def a b c st)
qed

lemma clamp_low: "n \<le> 1 \<Longrightarrow> clamp n = 1"
  by (simp add: clamp_def)

lemma clamp_high: "7 \<le> n \<Longrightarrow> clamp n = 7"
  by (simp add: clamp_def)

lemma floor_rnd_pos:
  assumes "0 \<le> x" "x < 1 \<or> 7 \<le> x \<or> x \<le> of_int \<lfloor>x\<rfloor> + 1 - 1 / 2 ^ 50"
  shows "clamp \<lfloor>rnd_pos x\<rfloor> = clamp \<lfloor>x\<rfloor>"
proof -
  consider (lo) "x < 1" | (hi) "7 \<le> x" | (mid) "1 \<le> x" "x < 7" "x \<le> of_int \<lfloor>x\<rfloor> + 1 - 1 / 2 ^ 50"
    using assms(2) by linarith
  then show ?thesis
  proof cases
    case lo
    have "rnd_pos x \<le> rnd_pos 1" using assms(1) lo by (intro rnd_pos_mono0) simp_all
    then have "rnd_pos x \<le> 1" using rnd_pos_of_int[of 1] by simp
    then have "\<lfloor>rnd_pos x\<rfloor> \<le> 1" by (simp add: floor_le_iff)
    moreover have "\<lfloor>x\<rfloor> \<le> 1" using lo by (simp add: floor_le_iff)
    ultimately show ?thesis by (simp add: clamp_low)
  next
    case hi
    have "rnd_pos 7 \<le> rnd_pos x" using hi by (intro rnd_pos_mono0) simp_all
    then have "7 \<le> rnd_pos x" using rnd_pos_of_int[of 7] by simp
    then have "7 \<le> \<lfloor>rnd_pos x\<rfloor>" by (simp add: le_floor_iff)
    moreover have "7 \<le> \<lfloor>x\<rfloor>" using hi by (simp add: le_floor_iff)
    ultimately show ?thesis by (simp add: clamp_high)
  next
    case mid
    define k where "k = \<lfloor>x\<rfloor>"
    have k: "1 \<le> k" "k \<le> 6" using mid(1,2) by (simp_all add: k_def le_floor_iff floor_le_iff)
    have kx: "of_int k \<le> x" by (simp add: k_def)
    have "rnd_pos (of_int k) \<le> rnd_pos x" using kx k(1) by (intro rnd_pos_mono0) simp_all
    moreover have "rnd_pos (of_int k) = of_int k" using k by (intro rnd_pos_of_int) simp_all
    ultimately have lo: "of_int k \<le> rnd_pos x" by simp
    define m where "m = (k + 1) * 2 ^ 50 - 1"
    define r :: rat where "r = of_int m * 2 powi (- 50)"
    have m: "0 < m" "m < 2 ^ 53" using k by (simp_all add: m_def)
    have rr: "rnd_pos r = r" unfolding r_def by (rule rnd_pos_representable[OF m]) simp
    have r: "r = of_int k + 1 - 1 / 2 ^ 50"
      by (simp add: r_def m_def power_int_minus_divide field_simps)
    have "rnd_pos x \<le> rnd_pos r" using assms(1) mid(3) by (intro rnd_pos_mono0) (simp_all add: r k_def)
    then have "rnd_pos x \<le> r" by (simp only: rr)
    then have "rnd_pos x \<le> of_int k + 1 - 1 / 2 ^ 50" by (simp only: r)
    then have "rnd_pos x < of_int k + 1" by simp
    with lo have "\<lfloor>rnd_pos x\<rfloor> = k" by (simp add: floor_unique)
    then show ?thesis by (simp add: k_def)
  qed
qed

lemma clamp_trunc_round_to_double:
  assumes "\<bar>v\<bar> \<le> 2 ^ 1023"
    and "\<bar>v\<bar> < 1 \<or> 7 \<le> \<bar>v\<bar> \<or> \<bar>v\<bar> \<le> of_int \<lfloor>\<bar>v\<bar>\<rfloor> + 1 - 1 / 2 ^ 50"
  shows "\<exists>d. round_to_double v = Finite d \<and> clamp (trunc d) = clamp (trunc v)"
proof (cases "0 \<le> v")
  case True
  then have a: "\<bar>v\<bar> = v" by simp
  have d: "round_to_double v = Finite (rnd_pos v)"
    using round_to_double_finite[OF assms(1)] True by (simp add: a)
  have "clamp \<lfloor>rnd_pos v\<rfloor> = clamp \<lfloor>v\<rfloor>" using assms(2) True by (intro floor_rnd_pos) (simp_all add: a)
  then show ?thesis using True rnd_pos_nonneg[OF True] by (simp add: d trunc_def)
next
  case False
  have d: "round_to_double v = Finite (- rnd_pos \<bar>v\<bar>)"
    using round_to_double_finite[OF assms(1)] False by simp
  have "0 \<le> rnd_pos \<bar>v\<bar>" by (rule rnd_pos_nonneg) simp
  then have "trunc (- rnd_pos \<bar>v\<bar>) \<le> 0" by (simp add: trunc_def ceiling_le_iff)
  moreover have "trunc v \<le> 0" using False by (simp add: trunc_def ceiling_le_iff)
  ultimately show ?thesis by (simp add: d clamp_low)
qed

lemma clamp_range: "1 \<le> clamp n \<and> clamp n \<le> 7"
  by (simp add: clamp_def)

lemma find_keyword_range:
  assumes "\<forall>f. found = Some f \<longrightarrow> 1 \<le> f \<and> f \<le> 7"
    and "\<forall>(k, v) \<in> set kws. 1 \<le> v \<and> v \<le> 7"
    and "find_keyword t found kws = Some r"
  shows "1 \<le> r \<and> r \<le> 7"
  using assms
proof (induction kws arbitrary: found)
  case Nil
  then show ?case by simp
next
  case (Cons a kws)
  obtain k v where a: "a = (k, v)" by (cases a)
  show ?case
  proof (rule Cons.IH[where found = "if contains k t
        then (case found of None \<Rightarrow> Some v | Some f \<Rightarrow> if f < v then Some v else found)
        else found"])
    show "\<forall>f. (if contains k t
        then (case found of None \<Rightarrow> Some v | Some f \<Rightarrow> if f < v then Some v else found)
        else found) = Some f \<longrightarrow> 1 \<le> f \<and> f \<le> 7"
      using Cons.prems(1,2) by (auto simp add: a split: option.splits if_splits)
    show "\<forall>(k, v) \<in> set kws. 1 \<le> v \<and> v \<le> 7" using Cons.prems(2) by simp
    show "find_keyword t (if contains k t
        then (case found of None \<Rightarrow> Some v | Some f \<Rightarrow> if f < v then Some v else found)
        else found) kws = Some r"
      using Cons.prems(3) by (simp add: a)
  qed
qed

lemma from_keywords_range: "1 \<le> from_keywords t \<and> from_keywords t \<le> 7"
proof (cases "find_keyword (lower t) None score_keywords")
  case None
  then show ?thesis by (simp add: from_keywords_def)
next
  case (Some r)
  have "1 \<le> r \<and> r \<le> 7"
    by (rule find_keyword_range[OF _ _ Some]) (simp_all add: score_keywords_def)
  then show ?thesis by (simp add: from_keywords_def Some)
qed

lemma from_json_range: "from_json limit t = Inr n \<Longrightarrow> 1 \<le> n \<and> n \<le> 7"
  using clamp_range from_keywords_range
  by (auto simp add: from_json_def split: sum.splits if_splits)

lemma from_regex_range: "from_regex limit t = Inr n \<Longrightarrow> 1 \<le> n \<and> n \<le> 7"
  using clamp_range from_json_range
  by (auto simp add: from_regex_def split: sum.splits if_splits list.splits)

lemma parse_body_range: "parse_body p limit t = Inr n \<Longrightarrow> 1 \<le> n \<and> n \<le> 7"
  using clamp_range from_regex_range
  by (auto simp add: parse_body_def Let_def split: sum.splits if_splits)

lemma parse_body_empty: "strip t = [] \<Longrightarrow> parse_body p limit t = Inr 4"
  by (simp add: parse_body_def)

text \<open>
  Claim C2. For every input text the score parser returns an integer between 1 and 7 and
  never raises: every exception of the body is caught by the outer handler, which returns
  the neutral default 4. A text that is empty or only whitespace gives 4.
\<close>

theorem parse_result_total_in_range:
  "\<exists>score. parse_result p limit result_text = Inr score \<and> 1 \<le> score \<and> score \<le> 7
     \<and> (strip result_text = [] \<longrightarrow> score = 4)"
proof (cases "parse_body p limit result_text")
  case (Inl e)
  then have "strip result_text \<noteq> []" using parse_body_empty[of result_text p limit] by auto
  then show ?thesis by (simp add: parse_result_def Inl)
next
  case (Inr n)
  then show ?thesis
    using parse_body_range[OF Inr] parse_body_empty[of result_text p limit]
    by (auto simp add: parse_result_def)
qed

theorem parse_result_total_in_range_witness:
  "strip ''  '' = [] \<and> parse_result \<lparr>provider = ''openai'', model = ''gpt-4o''\<rparr> 1000 ''  '' = Inr 4"
  using parse_result_total_in_range[of "\<lparr>provider = ''openai'', model = ''gpt-4o''\<rparr>" 1000 "''  ''"]
  by (auto simp add: strip_def is_space_def)

lemma extract_answer_indep:
  "\<not> thinking_config p \<Longrightarrow> \<not> thinking_config p' \<Longrightarrow>
     extract_answer p result_text = extract_answer p' result_text"
  by (simp add: extract_answer_def Let_def)

text \<open>
  Claim C9, as the code has it. The parser is a function of the text and of the processor's
  provider and model: for a Google provider with a "thinking" or "gemini-2" model it first
  cuts the text after "Final answer:" or "Therefore, the score is". For any two
  configurations that are not of that kind the score depends on the text alone.
\<close>

theorem parse_result_config_independent:
  assumes "\<not> thinking_config p" and "\<not> thinking_config p'"
  shows "parse_result p limit result_text = parse_result p' limit result_text"
  using extract_answer_indep[OF assms, of result_text]
  by (simp add: parse_result_def parse_body_def)

theorem parse_result_config_independent_witness:
  "\<not> thinking_config \<lparr>provider = ''openai'', model = ''gpt-4o''\<rparr>
   \<and> \<not> thinking_config \<lparr>provider = ''google'', model = ''gemini-1.5-flash''\<rparr>
   \<and> parse_result \<lparr>provider = ''openai'', model = ''gpt-4o''\<rparr> 1000 ''Final answer: 5''
     = parse_result \<lparr>provider = ''google'', model = ''gemini-1.5-flash''\<rparr> 1000 ''Final answer: 5''"
proof -
  have a: "\<not> thinking_config \<lparr>provider = ''openai'', model = ''gpt-4o''\<rparr>"
    by (simp add: thinking_config_def)
  have b: "\<not> thinking_config \<lparr>provider = ''google'', model = ''gemini-1.5-flash''\<rparr>"
    by (simp add: thinking_config_def)
  show ?thesis using a b parse_result_config_independent[OF a b, of 1000 "''Final answer: 5''"]
    by simp
qed

text \<open>
  The same text scored under two configurations: the first run of digits (3) for OpenAI,
  the part after "Final answer:" (5) for a Google gemini-2 model.
\<close>

theorem parse_result_depends_on_provider:
  "parse_result \<lparr>provider = ''openai'', model = ''gpt-4o''\<rparr> 1000
       ''I need to analyze 3 things. Final answer: 5'' = Inr 3
   \<and> parse_result \<lparr>provider = ''google'', model = ''gemini-2.0-flash''\<rparr> 1000
       ''I need to analyze 3 things. Final answer: 5'' = Inr 5"
proof -
  let ?T = "''I need to analyze 3 things. Final answer: 5''"
  let ?o = "\<lparr>provider = ''openai'', model = ''gpt-4o''\<rparr>"
  let ?g = "\<lparr>provider = ''google'', model = ''gemini-2.0-flash''\<rparr>"
  have s: "strip ?T = ?T" by (simp add: str_ev)
  have a: "answer_part ?T = ?T" by (simp add: answer_part_def)
  have b: "final_part ?T = ''5''" by (simp add: final_part_def str_ev)
  have co: "extract_answer ?o ?T = ?T"
    by (simp add: extract_answer_def Let_def a thinking_config_def s)
  have cg: "extract_answer ?g ?T = ''5''"
    by (simp add: extract_answer_def Let_def a b thinking_config_def) (simp add: str_ev)
  have d1: "int_of_float_str ?T = Inl ValueError" by (simp add: float_ev)
  have d2: "int_of_float_str ''3'' = Inr 3" by (simp add: float_ev)
  have d3: "int_of_float_str ''5'' = Inr 5" by (simp add: float_ev)
  have r: "from_regex 1000 ?T = Inr 3"
    by (simp add: from_regex_def is_digit_def d2 clamp_def)
  have "parse_result ?o 1000 ?T = Inr 3"
    by (simp add: parse_result_def parse_body_def s co d1 is_ValueError_def r)
  moreover have "parse_result ?g 1000 ?T = Inr 5"
    by (simp add: parse_result_def parse_body_def s cg d3 clamp_def)
  ultimately show ?thesis by simp
qed

text \<open>
  Claim C3, as the code has it. A decimal numeral denoting \<open>n\<close> is converted with
  \<open>int(float(text))\<close>: the nearest binary64 value \<open>d\<close> of \<open>n\<close> is truncated toward zero
  (not rounded to the nearest integer) and clamped to 1..7; when \<open>n\<close> is too large for a
  binary64 value the conversion overflows and the parser returns 4. Whenever
  \<open>\<bar>n\<bar> \<le> 2 ^ 1023\<close> and the fraction of \<open>\<bar>n\<bar>\<close> is at most \<open>1 - 2 ^ - 50\<close> (or
  \<open>\<bar>n\<bar> < 1\<close>, or \<open>7 \<le> \<bar>n\<bar>\<close>), the result is \<open>clamp (trunc n)\<close>.
\<close>

theorem parse_result_decimal:
  assumes "ip \<noteq> []" and "list_all is_digit ip" and "list_all is_digit fp"
  shows "parse_result p limit (decimal_text neg ip fp) =
           Inr (case round_to_double (decimal_value neg ip fp) of
                  Finite d \<Rightarrow> clamp (trunc d) | _ \<Rightarrow> 4)
         \<and> (\<bar>decimal_value neg ip fp\<bar> \<le> 2 ^ 1023 \<and>
             (\<bar>decimal_value neg ip fp\<bar> < 1 \<or> 7 \<le> \<bar>decimal_value neg ip fp\<bar> \<or>
              \<bar>decimal_value neg ip fp\<bar> \<le> of_int \<lfloor>\<bar>decimal_value neg ip fp\<bar>\<rfloor> + 1 - 1 / 2 ^ 50)
            \<longrightarrow> parse_result p limit (decimal_text neg ip fp) =
                  Inr (clamp (trunc (decimal_value neg ip fp))))"
proof -
  let ?s = "decimal_text neg ip fp"
  let ?v = "decimal_value neg ip fp"
  have ne: "?s \<noteq> []" using decimal_text_ends(1)[OF assms] .
  have st: "strip ?s = ?s"
    using decimal_text_ends[OF assms, of neg] numeric_char_facts(1) by (intro strip_id) auto
  have f: "int_of_float_str ?s = py_int (round_to_double ?v)"
    by (simp add: int_of_float_str_def py_float_decimal_text[OF assms])
  have A: "parse_result p limit ?s =
      Inr (case round_to_double ?v of Finite d \<Rightarrow> clamp (trunc d) | _ \<Rightarrow> 4)"
    using round_to_double_not_NaN[of ?v]
    by (cases "round_to_double ?v")
      (simp_all add: parse_result_def parse_body_def ne st extract_answer_decimal_text[OF assms] f
        py_int_def is_ValueError_def)
  show ?thesis
  proof (intro conjI impI)
    show "parse_result p limit ?s =
      Inr (case round_to_double ?v of Finite d \<Rightarrow> clamp (trunc d) | _ \<Rightarrow> 4)" by (rule A)
  next
    assume h: "\<bar>?v\<bar> \<le> 2 ^ 1023 \<and>
      (\<bar>?v\<bar> < 1 \<or> 7 \<le> \<bar>?v\<bar> \<or> \<bar>?v\<bar> \<le> of_int \<lfloor>\<bar>?v\<bar>\<rfloor> + 1 - 1 / 2 ^ 50)"
    then obtain d where "round_to_double ?v = Finite d" "clamp (trunc d) = clamp (trunc ?v)"
      using clamp_trunc_round_to_double[of ?v] by blast
    then show "parse_result p limit ?s = Inr (clamp (trunc ?v))" by (simp add: A)
  qed
qed

theorem parse_result_decimal_witness:
  "''3'' \<noteq> [] \<and> list_all is_digit ''3'' \<and> list_all is_digit []
   \<and> decimal_text True ''3'' [] = ''-3''
   \<and> parse_result \<lparr>provider = ''openai'', model = ''gpt-4o''\<rparr> 1000 ''-3'' = Inr 1"
proof -
  have a: "''3'' \<noteq> []" "list_all is_digit ''3''" "list_all is_digit []"
    by (simp_all add: is_digit_def)
  have t: "decimal_text True ''3'' [] = ''-3''" by (simp add: decimal_text_def)
  have v: "decimal_value True ''3'' [] = - 3" by (simp add: decimal_value_def digits_val_def)
  show ?thesis
    using a t parse_result_decimal[OF a, of "\<lparr>provider = ''openai'', model = ''gpt-4o''\<rparr>" 1000 True]
    by (simp add: v trunc_def clamp_def round_to_double_def Let_def rnd_pos_numeral)
qed

text \<open>
  The text "4.6" parses to 4, where rounding to the nearest integer would give 5.
\<close>

theorem parse_result_truncates:
  "decimal_text False ''4'' ''6'' = ''4.6''
   \<and> parse_result \<lparr>provider = ''openai'', model = ''gpt-4o''\<rparr> 1000 ''4.6'' = Inr 4
   \<and> clamp (round (decimal_value False ''4'' ''6'')) = 5"
proof -
  let ?o = "\<lparr>provider = ''openai'', model = ''gpt-4o''\<rparr>"
  have t: "decimal_text False ''4'' ''6'' = ''4.6''" by (simp add: decimal_text_def)
  have v: "decimal_value False ''4'' ''6'' = 23 / 5" by (simp add: decimal_value_def digits_val_def)
  have s: "strip ''4.6'' = ''4.6''" by (simp add: str_ev)
  have e: "extract_answer ?o ''4.6'' = ''4.6''"
    by (simp add: extract_answer_def Let_def answer_part_def thinking_config_def s)
  have q: "(23 / 5) / (2::rat) powi (2 - 52) = 25895697857380352 / 5"
    by (simp add: power_int_minus_divide)
  have h: "rhe (25895697857380352 / 5) = 5179139571476070"
    by (rule rhe_eval) simp_all
  have "rnd_pos (23 / 5) = of_int (rhe ((23 / 5) / 2 powi (2 - 52))) * 2 powi (2 - 52)"
    by (rule rnd_pos_eval) simp_all
  then have r: "rnd_pos (23 / 5) = 5179139571476070 / 1125899906842624"
    by (simp only: q h) (simp add: power_int_minus_divide)
  have fl: "\<lfloor>2589569785738035 / 562949953421312 :: rat\<rfloor> = 4" by (rule floor_unique) simp_all
  have f: "int_of_float_str ''4.6'' = Inr 4" by (simp add: float_ev r fl)
  have "parse_result ?o 1000 ''4.6'' = Inr 4"
    by (simp add: parse_result_def parse_body_def s e f clamp_def)
  moreover have "clamp (round (decimal_value False ''4'' ''6'')) = 5"
  proof -
    have "\<lfloor>(23 / 5 :: rat) + 1 / 2\<rfloor> = 5" by (rule floor_unique) simp_all
    then show ?thesis by (simp add: v round_def clamp_def)
  qed
  ultimately show ?thesis using t by simp
qed

section \<open>Facts about the retry loops\<close>










section \<open>Facts about the batch orchestrator\<close>

lemma emit_fields [simp]:
  "processed_data (emit s st) = processed_data st"
  "relevant_count (emit s st) = relevant_count st"
  "completed_tasks (emit s st) = completed_tasks st"
  "polls (emit s st) = polls st"
  "requested (emit s st) = requested st"
  "saved (emit s st) = saved st"
  "signals (emit s st) = signals st @ [s]"
  by (simp_all add: emit_def)

lemma polled_fields [simp]:
  "processed_data (polled st) = processed_data st"
  "relevant_count (polled st) = relevant_count st"
  "completed_tasks (polled st) = completed_tasks st"
  "polls (polled st) = polls st + 1"
  "requested (polled st) = requested st"
  "saved (polled st) = saved st"
  "signals (polled st) = signals st"
  by (simp_all add: polled_def)

lemma skip_record_fields [simp]:
  "processed_data (skip_record it i r st) =
     processed_data st @ (if it = 1 then [skipped r it] else [])"
  "relevant_count (skip_record it i r st) = relevant_count st"
  "completed_tasks (skip_record it i r st) = completed_tasks st"
  "polls (skip_record it i r st) = polls st"
  "requested (skip_record it i r st) = requested st"
  "saved (skip_record it i r st) = saved st"
  "signals (skip_record it i r st) = signals st @ [progress_update (Skipping (i + 1) it)]"
  by (simp_all add: skip_record_def Let_def)

lemma announce_record_fields [simp]:
  "processed_data (announce_record p n it i r st) = processed_data st"
  "relevant_count (announce_record p n it i r st) = relevant_count st"
  "completed_tasks (announce_record p n it i r st) = completed_tasks st"
  "polls (announce_record p n it i r st) = polls st"
  "requested (announce_record p n it i r st) = requested st @ [(it, i)]"
  "saved (announce_record p n it i r st) = saved st"
  by (simp_all add: announce_record_def Let_def)

lemma log_response_fields [simp]:
  "processed_data (log_response it i st) = processed_data st"
  "relevant_count (log_response it i st) = relevant_count st"
  "completed_tasks (log_response it i st) = completed_tasks st"
  "polls (log_response it i st) = polls st"
  "requested (log_response it i st) = requested st"
  "saved (log_response it i st) = saved st"
  by (simp_all add: log_response_def)

lemma append_result_fields [simp]:
  "processed_data (append_result it r v rel st) =
     processed_data st @ [\<lparr>source = r, relevance_score = v, is_relevant = rel, iteration = it\<rparr>]"
  "relevant_count (append_result it r v rel st) = relevant_count st + (if rel then 1 else 0)"
  "completed_tasks (append_result it r v rel st) = completed_tasks st"
  "polls (append_result it r v rel st) = polls st"
  "requested (append_result it r v rel st) = requested st"
  "saved (append_result it r v rel st) = saved st"
  by (simp_all add: append_result_def)

lemma quiet_simps [simp]:
  "quiet []"
  "quiet (xs @ ys) = (quiet xs \<and> quiet ys)"
  "quiet (s # xs) = (\<not> terminal s \<and> percentage_of s = [] \<and> quiet xs)"
  by (auto simp add: quiet_def)

lemma announce_record_signals:
  "\<exists>new. signals (announce_record p n it i r st) = signals st @ new \<and> quiet new"
  by (simp add: announce_record_def Let_def)

lemma log_response_signals:
  "\<exists>new. signals (log_response it i st) = signals st @ new \<and> quiet new"
  by (simp add: log_response_def)

lemma append_result_signals:
  "\<exists>new. signals (append_result it r v rel st) = signals st @ new \<and> quiet new"
  by (simp add: append_result_def)

lemma score_record_signals:
  "\<exists>new. signals (snd (score_record e p n it i r st)) = signals st @ new \<and> quiet new"
proof -
  obtain a where a: "signals (announce_record p n it i r st) = signals st @ a" "quiet a"
    using announce_record_signals by blast
  obtain b where b: "signals (log_response it i (announce_record p n it i r st)) =
      signals (announce_record p n it i r st) @ b" "quiet b"
    using log_response_signals by blast
  show ?thesis
  proof (cases "scorer e it i (request_for p r)")
    case None
    then show ?thesis using a by (simp add: score_record_def)
  next
    case (Some v)
    show ?thesis
    proof (cases "meets_threshold v (threshold p)")
      case (Inl ex)
      then show ?thesis using a b by (simp add: score_record_def Some)
    next
      case (Inr rel)
      obtain c where c: "signals (append_result it r v rel (log_response it i (announce_record p n it i r st))) =
          signals (log_response it i (announce_record p n it i r st)) @ c" "quiet c"
        using append_result_signals by blast
      show ?thesis using a b c by (simp add: score_record_def Some Inr)
    qed
  qed
qed

lemma score_record_fields [simp]:
  "completed_tasks (snd (score_record e p n it i r st)) = completed_tasks st"
  "polls (snd (score_record e p n it i r st)) = polls st"
  "requested (snd (score_record e p n it i r st)) = requested st @ [(it, i)]"
  "saved (snd (score_record e p n it i r st)) = saved st"
  by (simp_all add: score_record_def split: option.splits sum.splits)

lemma next_task_fields [simp]:
  "processed_data (next_task st) = processed_data st"
  "relevant_count (next_task st) = relevant_count st"
  "completed_tasks (next_task st) = completed_tasks st + 1"
  "polls (next_task st) = polls st"
  "requested (next_task st) = requested st"
  "saved (next_task st) = saved st"
  "signals (next_task st) = signals st"
  by (simp_all add: next_task_def)

lemma calm_simps [simp]:
  "calm []"
  "calm (xs @ ys) = (calm xs \<and> calm ys)"
  "calm (s # xs) = (\<not> terminal s \<and> calm xs)"
  by (auto simp add: calm_def)

lemma quiet_calm: "quiet new \<Longrightarrow> calm new"
  by (simp add: quiet_def calm_def)

lemma record_loop_induct [case_names Nil Cancel Max Failed Blank Scored Stopped]:
  assumes "\<And>i st. P i [] st (Normal, st)"
    and "\<And>i r rows st. terminate_flag e st \<Longrightarrow>
           P i (r # rows) st (Normal, emit (progress_update Cancelled) (polled st))"
    and "\<And>i r rows st. \<not> terminate_flag e st \<Longrightarrow> 0 < max_records p \<Longrightarrow> max_records p \<le> int i \<Longrightarrow>
           P i (r # rows) st (Normal, emit (progress_update (MaxReached (max_records p) it)) (polled st))"
    and "\<And>i r rows st ex. \<not> terminate_flag e st \<Longrightarrow> \<not> (0 < max_records p \<and> max_records p \<le> int i) \<Longrightarrow>
           progress (Suc (completed_tasks st)) T = Inl ex \<Longrightarrow>
           P i (r # rows) st (Raising ex, next_task (polled st))"
    and "\<And>i r rows st pr res. \<not> terminate_flag e st \<Longrightarrow> \<not> (0 < max_records p \<and> max_records p \<le> int i) \<Longrightarrow>
           progress (Suc (completed_tasks st)) T = Inr pr \<Longrightarrow> blank r \<Longrightarrow>
           P (i + 1) rows (skip_record it i r (emit (progress_percentage pr) (next_task (polled st)))) res \<Longrightarrow>
           P i (r # rows) st res"
    and "\<And>i r rows st pr st3 res. \<not> terminate_flag e st \<Longrightarrow> \<not> (0 < max_records p \<and> max_records p \<le> int i) \<Longrightarrow>
           progress (Suc (completed_tasks st)) T = Inr pr \<Longrightarrow> \<not> blank r \<Longrightarrow>
           score_record e p n it i r (emit (progress_percentage pr) (next_task (polled st))) = (Normal, st3) \<Longrightarrow>
           P (i + 1) rows st3 res \<Longrightarrow>
           P i (r # rows) st res"
    and "\<And>i r rows st pr fl st3. \<not> terminate_flag e st \<Longrightarrow> \<not> (0 < max_records p \<and> max_records p \<le> int i) \<Longrightarrow>
           progress (Suc (completed_tasks st)) T = Inr pr \<Longrightarrow> \<not> blank r \<Longrightarrow>
           score_record e p n it i r (emit (progress_percentage pr) (next_task (polled st))) = (fl, st3) \<Longrightarrow>
           fl \<noteq> Normal \<Longrightarrow>
           P i (r # rows) st (fl, st3)"
  shows "P i rows st (record_loop e p n T it i rows st)"
proof (induction rows arbitrary: i st)
  case Nil
  show ?case using assms(1) by simp
next
  case (Cons r rows)
  show ?case
  proof (cases "terminate_flag e st")
    case True
    then show ?thesis using assms(2) by simp
  next
    case nf: False
    show ?thesis
    proof (cases "0 < max_records p \<and> max_records p \<le> int i")
      case True
      then show ?thesis using assms(3)[OF nf] by (simp add: nf)
    next
      case nm: False
      show ?thesis
      proof (cases "progress (Suc (completed_tasks st)) T")
        case (Inl ex)
        show ?thesis using assms(4)[OF nf nm Inl] by (simp add: Let_def nf nm Inl)
      next
        case (Inr pr)
        let ?st2 = "emit (progress_percentage pr) (next_task (polled st))"
        show ?thesis
        proof (cases "blank r")
          case True
          have "P i (r # rows) st (record_loop e p n T it (i + 1) rows (skip_record it i r ?st2))"
            by (rule assms(5)[OF nf nm Inr True]) (rule Cons.IH)
          then show ?thesis by (simp add: Let_def nf nm Inr True)
        next
          case nb: False
          obtain fl st3 where sr: "score_record e p n it i r ?st2 = (fl, st3)"
            by (cases "score_record e p n it i r ?st2")
          show ?thesis
          proof (cases "fl = Normal")
            case True
            have "P i (r # rows) st (record_loop e p n T it (i + 1) rows st3)"
              by (rule assms(6)[OF nf nm Inr nb sr[unfolded True]]) (rule Cons.IH)
            then show ?thesis by (simp add: Let_def nf nm Inr nb sr True)
          next
            case False
            have "P i (r # rows) st (fl, st3)" by (rule assms(7)[OF nf nm Inr nb sr False])
            then show ?thesis using False by (cases fl) (simp_all add: Let_def nf nm Inr nb sr)
          qed
        qed
      qed
    qed
  qed
qed

lemma iteration_loop_induct [case_names Nil Cancel Next Stopped]:
  assumes "\<And>st. P [] st (Normal, st)"
    and "\<And>it its st. terminate_flag e st \<Longrightarrow>
           P (it # its) st (Normal, emit (progress_update Cancelled) (polled st))"
    and "\<And>it its st st1 res. \<not> terminate_flag e st \<Longrightarrow>
           record_loop e p (length data) T it 0 data
             (emit (progress_update (StartingIteration it (iterations p))) (polled st)) = (Normal, st1) \<Longrightarrow>
           P its st1 res \<Longrightarrow> P (it # its) st res"
    and "\<And>it its st fl st1. \<not> terminate_flag e st \<Longrightarrow>
           record_loop e p (length data) T it 0 data
             (emit (progress_update (StartingIteration it (iterations p))) (polled st)) = (fl, st1) \<Longrightarrow>
           fl \<noteq> Normal \<Longrightarrow> P (it # its) st (fl, st1)"
  shows "P its st (iteration_loop e p data T its st)"
proof (induction its arbitrary: st)
  case Nil
  show ?case using assms(1) by simp
next
  case (Cons it its)
  let ?st0 = "emit (progress_update (StartingIteration it (iterations p))) (polled st)"
  show ?case
  proof (cases "terminate_flag e st")
    case True
    then show ?thesis using assms(2)[OF True] by simp
  next
    case nf: False
    obtain fl st1 where rl: "record_loop e p (length data) T it 0 data ?st0 = (fl, st1)"
      by (cases "record_loop e p (length data) T it 0 data ?st0")
    show ?thesis
    proof (cases "fl = Normal")
      case True
      have "P (it # its) st (iteration_loop e p data T its st1)"
        by (rule assms(3)[OF nf rl[unfolded True]]) (rule Cons.IH)
      then show ?thesis by (simp add: nf rl True)
    next
      case False
      have "P (it # its) st (fl, st1)" by (rule assms(4)[OF nf rl False])
      then show ?thesis using False by (cases fl) (simp_all add: nf rl)
    qed
  qed
qed

lemma score_record_result:
  assumes "score_record e p n it i r st = (fl, st')"
  shows "completed_tasks st' = completed_tasks st"
    and "polls st' = polls st"
    and "requested st' = requested st @ [(it, i)]"
    and "saved st' = saved st"
    and "\<exists>new. signals st' = signals st @ new \<and> quiet new"
proof -
  have s: "st' = snd (score_record e p n it i r st)" using assms by simp
  show "completed_tasks st' = completed_tasks st" "polls st' = polls st"
    "requested st' = requested st @ [(it, i)]" "saved st' = saved st"
    by (simp_all add: s)
  show "\<exists>new. signals st' = signals st @ new \<and> quiet new"
    unfolding s by (rule score_record_signals)
qed

lemma score_record_data:
  assumes "score_record e p n it i r st = (fl, st')"
  shows "fl = Normal \<Longrightarrow> \<exists>v rel. processed_data st' =
           processed_data st @ [\<lparr>source = r, relevance_score = v, is_relevant = rel, iteration = it\<rparr>]"
    and "fl \<noteq> Normal \<Longrightarrow> processed_data st' = processed_data st"
  using assms by (auto simp add: score_record_def split: option.splits sum.splits)



lemma record_loop_signals:
  "\<exists>new. signals (snd (record_loop e p n T it i rows st)) = signals st @ new \<and> calm new"
proof (rule record_loop_induct[where P = "\<lambda>i rows st res. \<exists>new. signals (snd res) = signals st @ new \<and> calm new"])
  fix i r rows st pr st3 res
  assume "score_record e p n it i r (emit (progress_percentage pr) (next_task (polled st))) = (Normal, st3)"
    and "\<exists>new. signals (snd res) = signals st3 @ new \<and> calm new"
  then show "\<exists>new. signals (snd res) = signals st @ new \<and> calm new"
    using score_record_result(5) quiet_calm by fastforce
next
  fix i r rows st pr fl st3
  assume "score_record e p n it i r (emit (progress_percentage pr) (next_task (polled st))) = (fl, st3)"
  then show "\<exists>new. signals (snd (fl, st3)) = signals st @ new \<and> calm new"
    using score_record_result(5) quiet_calm by fastforce
qed auto

lemma iteration_loop_signals:
  "\<exists>new. signals (snd (iteration_loop e p data T its st)) = signals st @ new \<and> calm new"
proof (rule iteration_loop_induct[where P = "\<lambda>its st res. \<exists>new. signals (snd res) = signals st @ new \<and> calm new"])
  fix it its st st1 res
  assume "record_loop e p (length data) T it 0 data
      (emit (progress_update (StartingIteration it (iterations p))) (polled st)) = (Normal, st1)"
    and "\<exists>new. signals (snd res) = signals st1 @ new \<and> calm new"
  then show "\<exists>new. signals (snd res) = signals st @ new \<and> calm new"
    using record_loop_signals[of e p "length data" T it 0 data
        "emit (progress_update (StartingIteration it (iterations p))) (polled st)"] by fastforce
next
  fix it its st fl st1
  assume "record_loop e p (length data) T it 0 data
      (emit (progress_update (StartingIteration it (iterations p))) (polled st)) = (fl, st1)"
  then show "\<exists>new. signals (snd (fl, st1)) = signals st @ new \<and> calm new"
    using record_loop_signals[of e p "length data" T it 0 data
        "emit (progress_update (StartingIteration it (iterations p))) (polled st)"] by fastforce
qed auto

text \<open>A relation between the state before and after that every step of the loops keeps.\<close>

lemma record_loop_lift:
  assumes refl: "\<And>st. Q st st"
    and trans: "\<And>a b c. Q a b \<Longrightarrow> Q b c \<Longrightarrow> Q a c"
    and stop: "\<And>st l. Q st (emit (progress_update l) (polled st))"
    and tick: "\<And>st. \<not> terminate_flag e st \<Longrightarrow> Q st (next_task (polled st))"
    and pct: "\<And>st pr. progress (completed_tasks st) T = Inr pr \<Longrightarrow> Q st (emit (progress_percentage pr) st)"
    and skip: "\<And>st i r. blank r \<Longrightarrow> Q st (skip_record it i r st)"
    and scored: "\<And>st i r fl st'. \<not> blank r \<Longrightarrow> score_record e p n it i r st = (fl, st') \<Longrightarrow> Q st st'"
  shows "Q st (snd (record_loop e p n T it i rows st))"
proof (rule record_loop_induct[where P = "\<lambda>i rows st res. Q st (snd res)"])
  fix i st
  show "Q st (snd (Normal, st))" using refl by simp
next
  fix i r rows st
  show "Q st (snd (Normal, emit (progress_update Cancelled) (polled st)))" using stop by simp
next
  fix i r rows st
  show "Q st (snd (Normal, emit (progress_update (MaxReached (max_records p) it)) (polled st)))"
    using stop by simp
next
  fix i r rows st ex
  assume "\<not> terminate_flag e st"
  then show "Q st (snd (Raising ex, next_task (polled st)))" using tick by simp
next
  fix i r rows st pr res
  assume nf: "\<not> terminate_flag e st" and pr: "progress (Suc (completed_tasks st)) T = Inr pr"
    and b: "blank r"
    and ih: "Q (skip_record it i r (emit (progress_percentage pr) (next_task (polled st)))) (snd res)"
  have 1: "Q st (next_task (polled st))" using tick[OF nf] .
  have 2: "Q (next_task (polled st)) (emit (progress_percentage pr) (next_task (polled st)))"
    using pct[of "next_task (polled st)" pr] pr by simp
  have 3: "Q (emit (progress_percentage pr) (next_task (polled st)))
      (skip_record it i r (emit (progress_percentage pr) (next_task (polled st))))"
    using skip[OF b] .
  show "Q st (snd res)" using trans[OF trans[OF trans[OF 1 2] 3] ih] .
next
  fix i r rows st pr st3 res
  assume nf: "\<not> terminate_flag e st" and pr: "progress (Suc (completed_tasks st)) T = Inr pr"
    and b: "\<not> blank r"
    and sr: "score_record e p n it i r (emit (progress_percentage pr) (next_task (polled st))) = (Normal, st3)"
    and ih: "Q st3 (snd res)"
  have 1: "Q st (next_task (polled st))" using tick[OF nf] .
  have 2: "Q (next_task (polled st)) (emit (progress_percentage pr) (next_task (polled st)))"
    using pct[of "next_task (polled st)" pr] pr by simp
  have 3: "Q (emit (progress_percentage pr) (next_task (polled st))) st3" using scored[OF b sr] .
  show "Q st (snd res)" using trans[OF trans[OF trans[OF 1 2] 3] ih] .
next
  fix i r rows st pr fl st3
  assume nf: "\<not> terminate_flag e st" and pr: "progress (Suc (completed_tasks st)) T = Inr pr"
    and b: "\<not> blank r"
    and sr: "score_record e p n it i r (emit (progress_percentage pr) (next_task (polled st))) = (fl, st3)"
  have 1: "Q st (next_task (polled st))" using tick[OF nf] .
  have 2: "Q (next_task (polled st)) (emit (progress_percentage pr) (next_task (polled st)))"
    using pct[of "next_task (polled st)" pr] pr by simp
  have 3: "Q (emit (progress_percentage pr) (next_task (polled st))) st3" using scored[OF b sr] .
  show "Q st (snd (fl, st3))" using trans[OF trans[OF 1 2] 3] by simp
qed

lemma iteration_loop_lift:
  assumes refl: "\<And>st. Q st st"
    and trans: "\<And>a b c. Q a b \<Longrightarrow> Q b c \<Longrightarrow> Q a c"
    and stop: "\<And>st l. Q st (emit (progress_update l) (polled st))"
    and inner: "\<And>it st. Q st (snd (record_loop e p (length data) T it 0 data st))"
  shows "Q st (snd (iteration_loop e p data T its st))"
proof (rule iteration_loop_induct[where P = "\<lambda>its st res. Q st (snd res)"])
  fix st
  show "Q st (snd (Normal, st))" using refl by simp
next
  fix it its st
  show "Q st (snd (Normal, emit (progress_update Cancelled) (polled st)))" using stop by simp
next
  fix it its st st1 res
  let ?st0 = "emit (progress_update (StartingIteration it (iterations p))) (polled st)"
  assume rl: "record_loop e p (length data) T it 0 data ?st0 = (Normal, st1)" and ih: "Q st1 (snd res)"
  have "Q ?st0 st1" using inner[of ?st0 it] rl by simp
  then show "Q st (snd res)" using trans[OF trans[OF stop[of st]] ih] by blast
next
  fix it its st fl st1
  let ?st0 = "emit (progress_update (StartingIteration it (iterations p))) (polled st)"
  assume rl: "record_loop e p (length data) T it 0 data ?st0 = (fl, st1)"
  have "Q ?st0 st1" using inner[of ?st0 it] rl by simp
  then show "Q st (snd (fl, st1))" using trans[OF stop[of st]] by simp
qed

lemma observed_polled: "observed e (polled st) = terminate_flag e st"
  by (auto simp add: observed_def terminate_flag_def split: option.splits)







lemma started_fields [simp]:
  "processed_data started = []"
  "relevant_count started = 0"
  "completed_tasks started = 0"
  "polls started = 0"
  "requested started = []"
  "saved started = None"
  "signals started = [progress_percentage 0, progress_update Starting, progress_update ReadingExcel]"
  by (simp_all add: started_def initial_def)

lemma announce_fields [simp]:
  "processed_data (announce p n st) = processed_data st"
  "relevant_count (announce p n st) = relevant_count st"
  "completed_tasks (announce p n st) = completed_tasks st"
  "polls (announce p n st) = polls st"
  "requested (announce p n st) = requested st"
  "saved (announce p n st) = saved st"
  by (simp_all add: announce_def Let_def)

lemma announce_signals:
  "\<exists>new. signals (announce p n st) = signals st @ new \<and> quiet new"
  by (simp add: announce_def Let_def)







lemma run_fields:
  "polls (snd (run e p)) = polls (snd (run_body e p))"
  "completed_tasks (snd (run e p)) = completed_tasks (snd (run_body e p))"
  "processed_data (snd (run e p)) = processed_data (snd (run_body e p))"
  "requested (snd (run e p)) = requested (snd (run_body e p))"
  "saved (snd (run e p)) = saved (snd (run_body e p))"
  by (simp_all add: run_def split: prod.splits flow.splits)

lemma run_body_loaded:
  assumes "load_excel_data e = Inr data" "data \<noteq> []"
    and "iteration_loop e p data (effective_total p (length data) * iterations p)
           [1..iterations p] (announce p (length data) started) = (fl1, st1)"
  shows "run_body e p = (if fl1 = Normal then finish e p data st1 else (fl1, st1))"
  using assms by (simp add: run_body_def split: flow.splits)




lemma selected_Nil [simp]: "selected p i [] = []"
  by (simp add: selected_def)

lemma selected_max: "0 < max_records p \<Longrightarrow> max_records p \<le> int i \<Longrightarrow> selected p i rows = []"
  by (simp add: selected_def)

lemma selected_Cons:
  "\<not> (0 < max_records p \<and> max_records p \<le> int i) \<Longrightarrow> selected p i (r # rows) = r # selected p (i + 1) rows"
proof (cases "0 < max_records p")
  case True
  assume "\<not> (0 < max_records p \<and> max_records p \<le> int i)"
  then have "nat (max_records p) - i = Suc (nat (max_records p) - (i + 1))" using True by linarith
  then show ?thesis using True by (simp add: selected_def)
next
  case False
  then show ?thesis by (simp add: selected_def)
qed

lemma polls_record_loop: "polls st \<le> polls (snd (record_loop e p n T it i rows st))"
  by (rule record_loop_lift[where Q = "\<lambda>st st'. polls st \<le> polls st'"])
    (auto dest: score_record_result(2))

lemma polls_iteration_loop: "polls st \<le> polls (snd (iteration_loop e p data T its st))"
  by (rule iteration_loop_lift[where Q = "\<lambda>st st'. polls st \<le> polls st'"])
    (auto intro: polls_record_loop)

lemma terminate_flag_mono: "terminate_flag e st \<Longrightarrow> polls st \<le> polls st' \<Longrightarrow> terminate_flag e st'"
  by (auto simp add: terminate_flag_def split: option.splits)

lemma score_record_normal:
  assumes "score_record e p n it i r st = (Normal, st')"
  shows "\<exists>v. scorer e it i (request_for p r) = Some (Num v)
      \<and> processed_data st' = processed_data st @
          [\<lparr>source = r, relevance_score = Num v, is_relevant = (threshold p \<le> v), iteration = it\<rparr>]
      \<and> relevant_count st' = relevant_count st + (if threshold p \<le> v then 1 else 0)"
  using assms
  by (auto simp add: score_record_def meets_threshold_def split: option.splits sum.splits pyval.splits)

lemma record_loop_kept:
  "fst (record_loop e p n T it i rows st) = Normal \<and> \<not> terminate_flag e (snd (record_loop e p n T it i rows st))
   \<longrightarrow> map (\<lambda>x. (source x, iteration x)) (processed_data (snd (record_loop e p n T it i rows st)))
       = map (\<lambda>x. (source x, iteration x)) (processed_data st) @ map (\<lambda>r. (r, it)) (kept p it i rows)"
proof (rule record_loop_induct[where P = "\<lambda>i rows st res.
    fst res = Normal \<and> \<not> terminate_flag e (snd res)
    \<longrightarrow> map (\<lambda>x. (source x, iteration x)) (processed_data (snd res))
       = map (\<lambda>x. (source x, iteration x)) (processed_data st) @ map (\<lambda>r. (r, it)) (kept p it i rows)"])
  fix i st
  show "fst (Normal, st) = Normal \<and> \<not> terminate_flag e (snd (Normal, st))
    \<longrightarrow> map (\<lambda>x. (source x, iteration x)) (processed_data (snd (Normal, st)))
       = map (\<lambda>x. (source x, iteration x)) (processed_data st) @ map (\<lambda>r. (r, it)) (kept p it i [])"
    by (simp add: kept_def)
next
  fix i r rows st
  assume "terminate_flag e st"
  then have "terminate_flag e (emit (progress_update Cancelled) (polled st))"
    by (rule terminate_flag_mono) simp
  then show "fst (Normal, emit (progress_update Cancelled) (polled st)) = Normal
      \<and> \<not> terminate_flag e (snd (Normal, emit (progress_update Cancelled) (polled st)))
    \<longrightarrow> map (\<lambda>x. (source x, iteration x)) (processed_data (snd (Normal, emit (progress_update Cancelled) (polled st))))
       = map (\<lambda>x. (source x, iteration x)) (processed_data st) @ map (\<lambda>r. (r, it)) (kept p it i (r # rows))"
    by simp
next
  fix i r rows st
  assume "0 < max_records p" "max_records p \<le> int i"
  then show "fst (Normal, emit (progress_update (MaxReached (max_records p) it)) (polled st)) = Normal
      \<and> \<not> terminate_flag e (snd (Normal, emit (progress_update (MaxReached (max_records p) it)) (polled st)))
    \<longrightarrow> map (\<lambda>x. (source x, iteration x))
          (processed_data (snd (Normal, emit (progress_update (MaxReached (max_records p) it)) (polled st))))
       = map (\<lambda>x. (source x, iteration x)) (processed_data st) @ map (\<lambda>r. (r, it)) (kept p it i (r # rows))"
    by (simp add: kept_def selected_max)
next
  fix i r rows st pr res
  assume nm: "\<not> (0 < max_records p \<and> max_records p \<le> int i)" and b: "blank r"
    and ih: "fst res = Normal \<and> \<not> terminate_flag e (snd res)
      \<longrightarrow> map (\<lambda>x. (source x, iteration x)) (processed_data (snd res))
       = map (\<lambda>x. (source x, iteration x))
           (processed_data (skip_record it i r (emit (progress_percentage pr) (next_task (polled st)))))
         @ map (\<lambda>r. (r, it)) (kept p it (i + 1) rows)"
  show "fst res = Normal \<and> \<not> terminate_flag e (snd res)
    \<longrightarrow> map (\<lambda>x. (source x, iteration x)) (processed_data (snd res))
       = map (\<lambda>x. (source x, iteration x)) (processed_data st) @ map (\<lambda>r. (r, it)) (kept p it i (r # rows))"
    using ih b by (simp add: kept_def selected_Cons[OF nm] skipped_def)
next
  fix i r rows st pr st3 res
  assume nm: "\<not> (0 < max_records p \<and> max_records p \<le> int i)" and b: "\<not> blank r"
    and sr: "score_record e p n it i r (emit (progress_percentage pr) (next_task (polled st))) = (Normal, st3)"
    and ih: "fst res = Normal \<and> \<not> terminate_flag e (snd res)
      \<longrightarrow> map (\<lambda>x. (source x, iteration x)) (processed_data (snd res))
       = map (\<lambda>x. (source x, iteration x)) (processed_data st3) @ map (\<lambda>r. (r, it)) (kept p it (i + 1) rows)"
  show "fst res = Normal \<and> \<not> terminate_flag e (snd res)
    \<longrightarrow> map (\<lambda>x. (source x, iteration x)) (processed_data (snd res))
       = map (\<lambda>x. (source x, iteration x)) (processed_data st) @ map (\<lambda>r. (r, it)) (kept p it i (r # rows))"
    using ih b score_record_normal[OF sr] by (auto simp add: kept_def selected_Cons[OF nm])
qed auto

lemma iteration_loop_kept_aux:
  "polls st \<le> polls (snd (iteration_loop e p data T its st))
   \<and> (fst (iteration_loop e p data T its st) = Normal \<and> \<not> terminate_flag e (snd (iteration_loop e p data T its st))
   \<longrightarrow> map (\<lambda>x. (source x, iteration x)) (processed_data (snd (iteration_loop e p data T its st)))
       = map (\<lambda>x. (source x, iteration x)) (processed_data st) @ kept_all p data its)"
proof (rule iteration_loop_induct[where P = "\<lambda>its st res. polls st \<le> polls (snd res)
   \<and> (fst res = Normal \<and> \<not> terminate_flag e (snd res)
   \<longrightarrow> map (\<lambda>x. (source x, iteration x)) (processed_data (snd res))
       = map (\<lambda>x. (source x, iteration x)) (processed_data st) @ kept_all p data its)"])
  fix it its st
  assume "terminate_flag e st"
  then have "terminate_flag e (emit (progress_update Cancelled) (polled st))"
    by (rule terminate_flag_mono) simp
  then show "polls st \<le> polls (snd (Normal, emit (progress_update Cancelled) (polled st)))
   \<and> (fst (Normal, emit (progress_update Cancelled) (polled st)) = Normal
       \<and> \<not> terminate_flag e (snd (Normal, emit (progress_update Cancelled) (polled st)))
   \<longrightarrow> map (\<lambda>x. (source x, iteration x)) (processed_data (snd (Normal, emit (progress_update Cancelled) (polled st))))
       = map (\<lambda>x. (source x, iteration x)) (processed_data st) @ kept_all p data (it # its))"
    by simp
next
  fix it its st st1 res
  let ?st0 = "emit (progress_update (StartingIteration it (iterations p))) (polled st)"
  assume rl: "record_loop e p (length data) T it 0 data ?st0 = (Normal, st1)"
    and ih: "polls st1 \<le> polls (snd res)
      \<and> (fst res = Normal \<and> \<not> terminate_flag e (snd res)
      \<longrightarrow> map (\<lambda>x. (source x, iteration x)) (processed_data (snd res))
          = map (\<lambda>x. (source x, iteration x)) (processed_data st1) @ kept_all p data its)"
  have p01: "polls ?st0 \<le> polls st1" using polls_record_loop[of ?st0 e p "length data" T it 0 data] rl by simp
  show "polls st \<le> polls (snd res)
   \<and> (fst res = Normal \<and> \<not> terminate_flag e (snd res)
   \<longrightarrow> map (\<lambda>x. (source x, iteration x)) (processed_data (snd res))
       = map (\<lambda>x. (source x, iteration x)) (processed_data st) @ kept_all p data (it # its))"
  proof (intro conjI impI)
    show "polls st \<le> polls (snd res)" using p01 ih by simp
  next
    assume a: "fst res = Normal \<and> \<not> terminate_flag e (snd res)"
    then have "\<not> terminate_flag e st1" using terminate_flag_mono[of e st1 "snd res"] ih by blast
    then have "map (\<lambda>x. (source x, iteration x)) (processed_data st1)
       = map (\<lambda>x. (source x, iteration x)) (processed_data ?st0) @ map (\<lambda>r. (r, it)) (kept p it 0 data)"
      using record_loop_kept[of e p "length data" T it 0 data ?st0] rl by simp
    then show "map (\<lambda>x. (source x, iteration x)) (processed_data (snd res))
       = map (\<lambda>x. (source x, iteration x)) (processed_data st) @ kept_all p data (it # its)"
      using ih a by (simp add: kept_all_def)
  qed
next
  fix it its st fl st1
  let ?st0 = "emit (progress_update (StartingIteration it (iterations p))) (polled st)"
  assume rl: "record_loop e p (length data) T it 0 data ?st0 = (fl, st1)" and "fl \<noteq> Normal"
  then show "polls st \<le> polls (snd (fl, st1))
   \<and> (fst (fl, st1) = Normal \<and> \<not> terminate_flag e (snd (fl, st1))
   \<longrightarrow> map (\<lambda>x. (source x, iteration x)) (processed_data (snd (fl, st1)))
       = map (\<lambda>x. (source x, iteration x)) (processed_data st) @ kept_all p data (it # its))"
    using polls_record_loop[of ?st0 e p "length data" T it 0 data] by simp
qed (simp add: kept_all_def)

lemma record_loop_requested:
  "\<forall>x \<in> set (requested (snd (record_loop e p n T it i rows st))).
     x \<in> set (requested st) \<or> (i \<le> snd x \<and> snd x < i + length rows \<and> \<not> blank (rows ! (snd x - i)))"
proof (rule record_loop_induct[where P = "\<lambda>i rows st res. \<forall>x \<in> set (requested (snd res)).
     x \<in> set (requested st) \<or> (i \<le> snd x \<and> snd x < i + length rows \<and> \<not> blank (rows ! (snd x - i)))"])
  fix i r rows st pr res
  assume ih: "\<forall>x \<in> set (requested (snd res)).
     x \<in> set (requested (skip_record it i r (emit (progress_percentage pr) (next_task (polled st)))))
     \<or> (i + 1 \<le> snd x \<and> snd x < i + 1 + length rows \<and> \<not> blank (rows ! (snd x - (i + 1))))"
  show "\<forall>x \<in> set (requested (snd res)).
     x \<in> set (requested st) \<or> (i \<le> snd x \<and> snd x < i + length (r # rows) \<and> \<not> blank ((r # rows) ! (snd x - i)))"
  proof
    fix x assume "x \<in> set (requested (snd res))"
    then consider "x \<in> set (requested st)"
      | "i + 1 \<le> snd x" "snd x < i + 1 + length rows" "\<not> blank (rows ! (snd x - (i + 1)))"
      using ih by auto
    then show "x \<in> set (requested st) \<or> (i \<le> snd x \<and> snd x < i + length (r # rows) \<and> \<not> blank ((r # rows) ! (snd x - i)))"
    proof cases
      case 1 then show ?thesis by simp
    next
      case 2
      then have "snd x - i = Suc (snd x - (i + 1))" by simp
      then show ?thesis using 2 by simp
    qed
  qed
next
  fix i r rows st pr st3 res
  assume b: "\<not> blank r"
    and sr: "score_record e p n it i r (emit (progress_percentage pr) (next_task (polled st))) = (Normal, st3)"
    and ih: "\<forall>x \<in> set (requested (snd res)). x \<in> set (requested st3)
     \<or> (i + 1 \<le> snd x \<and> snd x < i + 1 + length rows \<and> \<not> blank (rows ! (snd x - (i + 1))))"
  have r3: "requested st3 = requested st @ [(it, i)]" using score_record_result(3)[OF sr] by simp
  show "\<forall>x \<in> set (requested (snd res)).
     x \<in> set (requested st) \<or> (i \<le> snd x \<and> snd x < i + length (r # rows) \<and> \<not> blank ((r # rows) ! (snd x - i)))"
  proof
    fix x assume "x \<in> set (requested (snd res))"
    then consider "x \<in> set (requested st)" | "x = (it, i)"
      | "i + 1 \<le> snd x" "snd x < i + 1 + length rows" "\<not> blank (rows ! (snd x - (i + 1)))"
      using ih r3 by auto
    then show "x \<in> set (requested st) \<or> (i \<le> snd x \<and> snd x < i + length (r # rows) \<and> \<not> blank ((r # rows) ! (snd x - i)))"
    proof cases
      case 1 then show ?thesis by simp
    next
      case 2 then show ?thesis using b by simp
    next
      case 3
      then have "snd x - i = Suc (snd x - (i + 1))" by simp
      then show ?thesis using 3 by simp
    qed
  qed
next
  fix i r rows st pr fl st3
  assume b: "\<not> blank r"
    and sr: "score_record e p n it i r (emit (progress_percentage pr) (next_task (polled st))) = (fl, st3)"
  have r3: "requested st3 = requested st @ [(it, i)]" using score_record_result(3)[OF sr] by simp
  show "\<forall>x \<in> set (requested (snd (fl, st3))).
     x \<in> set (requested st) \<or> (i \<le> snd x \<and> snd x < i + length (r # rows) \<and> \<not> blank ((r # rows) ! (snd x - i)))"
    using r3 b by auto
qed auto

lemma iteration_loop_requested:
  "\<forall>x \<in> set (requested (snd (iteration_loop e p data T its st))).
     x \<in> set (requested st) \<or> (snd x < length data \<and> \<not> blank (data ! snd x))"
proof (rule iteration_loop_lift[where Q = "\<lambda>st st'. \<forall>x \<in> set (requested st').
     x \<in> set (requested st) \<or> (snd x < length data \<and> \<not> blank (data ! snd x))"])
  fix it st
  show "\<forall>x \<in> set (requested (snd (record_loop e p (length data) T it 0 data st))).
     x \<in> set (requested st) \<or> (snd x < length data \<and> \<not> blank (data ! snd x))"
    using record_loop_requested[of e p "length data" T it 0 data st] by auto
qed auto

lemma record_loop_blank_results:
  "\<forall>x \<in> set (processed_data (snd (record_loop e p n T it i rows st))).
     x \<in> set (processed_data st) \<or> blank_ok x"
proof (rule record_loop_lift[where Q = "\<lambda>st st'. \<forall>x \<in> set (processed_data st').
     x \<in> set (processed_data st) \<or> blank_ok x"])
  fix st i r fl st'
  assume b: "\<not> blank r" and sr: "score_record e p n it i r st = (fl, st')"
  show "\<forall>x \<in> set (processed_data st'). x \<in> set (processed_data st) \<or> blank_ok x"
    using score_record_data[OF sr] b by (cases "fl = Normal") (auto simp add: blank_ok_def)
qed (auto simp add: blank_ok_def skipped_def)

lemma iteration_loop_blank_results:
  "\<forall>x \<in> set (processed_data (snd (iteration_loop e p data T its st))).
     x \<in> set (processed_data st) \<or> blank_ok x"
proof (rule iteration_loop_lift[where Q = "\<lambda>st st'. \<forall>x \<in> set (processed_data st').
     x \<in> set (processed_data st) \<or> blank_ok x"])
  fix it st
  show "\<forall>x \<in> set (processed_data (snd (record_loop e p (length data) T it 0 data st))).
     x \<in> set (processed_data st) \<or> blank_ok x"
    by (rule record_loop_blank_results)
qed auto

lemma calm_complete: "calm new \<Longrightarrow> processing_complete c n \<notin> set new"
  by (auto simp add: calm_def)

lemma run_completed:
  assumes "load_excel_data e = Inr data" and "run e p = (fl, st)"
    and "processing_complete c n \<in> set (signals st)"
  obtains st1 where
    "iteration_loop e p data (effective_total p (length data) * iterations p) [1..iterations p]
       (announce p (length data) started) = (Normal, st1)"
    and "\<not> terminate_flag e st1" and "iterations p \<noteq> 0" and "fl = Normal"
    and "processed_data st = processed_data st1" and "requested st = requested st1"
    and "c = int (length (processed_data st1)) div iterations p"
    and "saved st \<noteq> None"
proof -
  define T where "T = effective_total p (length data) * iterations p"
  define st0 where "st0 = announce p (length data) started"
  obtain fl1 st1 where loop: "iteration_loop e p data T [1..iterations p] st0 = (fl1, st1)"
    by (cases "iteration_loop e p data T [1..iterations p] st0") blast
  obtain new0 where new0: "signals st0 = signals started @ new0" "quiet new0"
    using announce_signals[of p "length data" started] by (auto simp add: st0_def)
  obtain new1 where new1: "signals st1 = signals st0 @ new1" "calm new1"
    using iteration_loop_signals[of e p data T "[1..iterations p]" st0] loop by auto
  have none1: "processing_complete c n \<notin> set (signals st1)"
    using new0 new1 calm_complete[OF new1(2)] calm_complete[OF quiet_calm[OF new0(2)]] by simp
  have ne: "data \<noteq> []"
  proof
    assume "data = []"
    then have "signals st = signals started @ [error_occurred NoDataFound]"
      using assms(1,2) by (auto simp add: run_def run_body_def)
    then show False using assms(3) by simp
  qed
  have body: "run_body e p = (if fl1 = Normal then finish e p data st1 else (fl1, st1))"
    using run_body_loaded[OF assms(1) ne] loop by (simp add: st0_def T_def)
  have normal: "fl1 = Normal"
  proof (rule ccontr)
    assume "fl1 \<noteq> Normal"
    then have "set (signals st) \<subseteq> set (signals st1) \<union> range error_occurred"
      using body assms(2) by (cases fl1) (auto simp add: run_def)
    then show False using assms(3) none1 by auto
  qed
  have nf: "\<not> terminate_flag e st1"
  proof
    assume "terminate_flag e st1"
    then have "signals st = signals st1" using body normal assms(2) by (auto simp add: run_def finish_def)
    then show False using assms(3) none1 by simp
  qed
  have nz: "iterations p \<noteq> 0"
  proof
    assume "iterations p = 0"
    then have "set (signals st) \<subseteq> set (signals st1) \<union> {progress_update WritingResults, progress_percentage 100}
        \<union> range error_occurred"
      using body normal nf assms(2) by (auto simp add: run_def finish_def Let_def)
    then show False using assms(3) none1 by auto
  qed
  have fin: "run e p = finish e p data st1" "fst (finish e p data st1) = Normal"
    using body normal nf nz by (simp_all add: run_def finish_def Let_def)
  have "fl = Normal" using fin assms(2) by (metis fst_conv)
  moreover have "processed_data st = processed_data st1" "requested st = requested st1" "saved st \<noteq> None"
    using fin(1) assms(2) nf nz by (auto simp add: finish_def Let_def)
  moreover have "c = int (length (processed_data st1)) div iterations p"
  proof -
    have "signals st = signals st1 @ [progress_update WritingResults, progress_percentage 100,
        progress_update (Completed (relevant_count st1) (int (length (processed_data st1)) div iterations p) (iterations p)),
        processing_complete (int (length (processed_data st1)) div iterations p) (relevant_count st1)]"
      using fin(1) assms(2) nf nz by (auto simp add: finish_def Let_def)
    then show ?thesis using assms(3) none1 by simp
  qed
  ultimately show thesis using that[of st1] loop normal nf nz by (simp add: T_def st0_def)
qed

lemma selected_length: "int (length (selected p 0 data)) = effective_total p (length data)"
  by (auto simp add: selected_def effective_total_def min_def)

lemma kept_first: "kept p 1 0 data = selected p 0 data"
  by (simp add: kept_def)

lemma kept_later: "it \<noteq> 1 \<Longrightarrow> kept p it 0 data = filter (\<lambda>r. \<not> blank r) (selected p 0 data)"
  by (simp add: kept_def)

lemma kept_all_later:
  "\<forall>it \<in> set its. it \<noteq> 1 \<Longrightarrow>
     length (kept_all p data its) = length its * length (filter (\<lambda>r. \<not> blank r) (selected p 0 data))"
  by (induction its) (simp_all add: kept_all_def kept_later)

lemma length_kept_all:
  assumes "1 \<le> n"
  shows "int (length (kept_all p data [1..n])) =
     n * int (length (filter (\<lambda>r. \<not> blank r) (selected p 0 data)))
     + int (length (filter blank (selected p 0 data)))"
proof -
  define W where "W = selected p 0 data"
  have split: "[1..n] = 1 # [2..n]" using assms by (simp add: upto_rec1)
  have later: "length (kept_all p data [2..n]) = length [2..n] * length (filter (\<lambda>r. \<not> blank r) W)"
    unfolding W_def by (rule kept_all_later) simp
  have whole: "length W = length (filter blank W) + length (filter (\<lambda>r. \<not> blank r) W)"
    using sum_length_filter_compl[of blank W] by simp
  have "length (kept_all p data [1..n]) = length W + length (kept_all p data [2..n])"
    by (simp add: split kept_all_def kept_first W_def)
  then have "int (length (kept_all p data [1..n])) =
      int (length (filter blank W)) + int (length (filter (\<lambda>r. \<not> blank r) W))
      + (n - 1) * int (length (filter (\<lambda>r. \<not> blank r) W))"
    using later whole assms by simp
  then show ?thesis by (simp add: W_def algebra_simps)
qed

lemma completed_results_shape:
  assumes "load_excel_data e = Inr data" and "run e p = (fl, st)"
    and "processing_complete c n \<in> set (signals st)"
  shows "map (\<lambda>x. (source x, iteration x)) (processed_data st) = kept_all p data [1..iterations p]"
proof -
  obtain st1 where loop: "iteration_loop e p data (effective_total p (length data) * iterations p)
        [1..iterations p] (announce p (length data) started) = (Normal, st1)"
    and nf: "\<not> terminate_flag e st1"
    and data: "processed_data st = processed_data st1"
    using run_completed[OF assms] by metis
  show ?thesis
    using iteration_loop_kept_aux[of "announce p (length data) started" e p data
        "effective_total p (length data) * iterations p" "[1..iterations p]"] loop nf data
    by simp
qed

text \<open>
  Claim C10. At a completion that was not cancelled, the count in the completion event is
  the number of results divided by the iteration count, rounded down. The results are, for
  iteration 1, one per selected record, and for every later iteration one per selected record
  that is not blank; so with \<open>n \<ge> 1\<close> iterations they number \<open>n\<close> times the non-blank
  selected records plus the blank ones. Without blank records and without a record limit the
  count is the number of input records; with a blank record among the selected ones and more
  than one iteration, the results are fewer than the tasks and the count is smaller than the
  number of selected records.
\<close>

theorem reported_processed_count:
  assumes "load_excel_data e = Inr data" and "run e p = (fl, st)"
    and "processing_complete c n \<in> set (signals st)"
  shows "c = int (length (processed_data st)) div iterations p
    \<and> map (\<lambda>x. (source x, iteration x)) (processed_data st) = kept_all p data [1..iterations p]
    \<and> (1 \<le> iterations p \<longrightarrow>
         int (length (processed_data st)) =
           iterations p * int (length (filter (\<lambda>r. \<not> blank r) (selected p 0 data)))
           + int (length (filter blank (selected p 0 data))))
    \<and> (1 \<le> iterations p \<and> max_records p = 0 \<and> filter blank data = [] \<longrightarrow> c = int (length data))
    \<and> (1 < iterations p \<and> filter blank (selected p 0 data) \<noteq> [] \<longrightarrow>
         int (length (processed_data st)) < effective_total p (length data) * iterations p
         \<and> c < effective_total p (length data))"
proof -
  define W where "W = selected p 0 data"
  define b where "b = int (length (filter blank W))"
  define nb where "nb = int (length (filter (\<lambda>r. \<not> blank r) W))"
  obtain st1 where loop: "iteration_loop e p data (effective_total p (length data) * iterations p)
        [1..iterations p] (announce p (length data) started) = (Normal, st1)"
    and nf: "\<not> terminate_flag e st1"
    and data: "processed_data st = processed_data st1"
    and c: "c = int (length (processed_data st1)) div iterations p"
    using run_completed[OF assms] by metis
  have shape: "map (\<lambda>x. (source x, iteration x)) (processed_data st) = kept_all p data [1..iterations p]"
    by (rule completed_results_shape[OF assms])
  have len: "length (processed_data st) = length (kept_all p data [1..iterations p])"
    using arg_cong[OF shape, of length] by simp
  have total: "int (length W) = b + nb"
    using sum_length_filter_compl[of blank W] by (simp add: b_def nb_def)
  have eff: "effective_total p (length data) = b + nb"
    using selected_length[of p data] total by (simp add: W_def)
  have count: "1 \<le> iterations p \<Longrightarrow> int (length (processed_data st)) = iterations p * nb + b"
    using length_kept_all[of "iterations p" p data] len by (simp add: nb_def b_def W_def)
  have clean: "c = int (length data)" if "1 \<le> iterations p" "max_records p = 0" "filter blank data = []"
  proof -
    have "W = data" using that(2) by (simp add: W_def selected_def)
    then have "b = 0" "nb = int (length data)" using that(3) total by (simp_all add: b_def)
    then show ?thesis using count[OF that(1)] c data that(1) by simp
  qed
  have fewer: "int (length (processed_data st)) < effective_total p (length data) * iterations p
      \<and> c < effective_total p (length data)"
    if "1 < iterations p" "filter blank W \<noteq> []"
  proof -
    have b: "0 < b" using that(2) by (simp add: b_def)
    have nb: "0 \<le> nb" by (simp add: nb_def)
    have A: "int (length (processed_data st)) = iterations p * nb + b" using count that(1) by simp
    have "b * 1 < b * iterations p" using b that(1) by (intro mult_strict_left_mono) simp_all
    then have less: "iterations p * nb + b < (b + nb) * iterations p" by (simp add: algebra_simps)
    have "c = (b + nb * iterations p) div iterations p" using c data A by (simp add: algebra_simps)
    also have "\<dots> = b div iterations p + nb" using that(1) by simp
    also have "b div iterations p < b" using b that(1) by (intro int_div_less_self) simp_all
    finally have "c < b + nb" by simp
    then show ?thesis using A less eff by simp
  qed
  show ?thesis
    using c data shape count clean fewer by (simp add: nb_def b_def W_def)
qed

text \<open>
  Claim C8. A record whose title and abstract are both empty is never sent to a provider:
  every scoring request of a run is for a record that is not blank. Every result whose
  record is blank belongs to iteration 1 and has score 0 and is not relevant. At a
  completion the results are, in order, one per selected record for iteration 1 and one per
  selected record that is not blank for every later iteration, so a blank record has no
  result there.
\<close>

theorem blank_records_handling:
  assumes "load_excel_data e = Inr data" and "run e p = (fl, st)"
  shows "(\<forall>x \<in> set (requested st). snd x < length data \<and> \<not> blank (data ! snd x))
    \<and> (\<forall>x \<in> set (processed_data st).
          blank (source x) \<longrightarrow> iteration x = 1 \<and> relevance_score x = Num 0 \<and> \<not> is_relevant x)
    \<and> (\<forall>c n. processing_complete c n \<in> set (signals st) \<longrightarrow>
          map (\<lambda>x. (source x, iteration x)) (processed_data st) =
            concat (map (\<lambda>it. map (\<lambda>r. (r, it)) (filter (\<lambda>r. it = 1 \<or> \<not> blank r) (selected p 0 data)))
                     [1..iterations p]))"
proof (intro conjI allI impI)
  define T where "T = effective_total p (length data) * iterations p"
  define st0 where "st0 = announce p (length data) started"
  have st: "st = snd (run e p)" using assms(2) by simp
  have body: "data \<noteq> [] \<Longrightarrow> snd (run_body e p) = snd (iteration_loop e p data T [1..iterations p] st0)
      \<or> (\<exists>st1. st1 = snd (iteration_loop e p data T [1..iterations p] st0)
           \<and> snd (run_body e p) = snd (finish e p data st1))"
    using assms(1)
    by (auto simp add: run_body_def T_def st0_def split: prod.splits flow.splits)
  have fin: "requested (snd (finish e p data s)) = requested s"
    "processed_data (snd (finish e p data s)) = processed_data s" for s
    by (simp_all add: finish_def Let_def)
  have req: "requested st = (if data = [] then [] else requested (snd (iteration_loop e p data T [1..iterations p] st0)))"
    using body assms(1) by (auto simp add: st run_fields fin run_body_def)
  have dat: "processed_data st =
      (if data = [] then [] else processed_data (snd (iteration_loop e p data T [1..iterations p] st0)))"
    using body assms(1) by (auto simp add: st run_fields fin run_body_def)
  show "\<forall>x \<in> set (requested st). snd x < length data \<and> \<not> blank (data ! snd x)"
    using iteration_loop_requested[of e p data T "[1..iterations p]" st0] req
    by (auto simp add: st0_def)
  show "\<forall>x \<in> set (processed_data st).
      blank (source x) \<longrightarrow> iteration x = 1 \<and> relevance_score x = Num 0 \<and> \<not> is_relevant x"
    using iteration_loop_blank_results[of e p data T "[1..iterations p]" st0] dat
    by (auto simp add: st0_def blank_ok_def)
next
  fix c n
  assume "processing_complete c n \<in> set (signals st)"
  then have "map (\<lambda>x. (source x, iteration x)) (processed_data st) = kept_all p data [1..iterations p]"
    using completed_results_shape[OF assms] by simp
  then show "map (\<lambda>x. (source x, iteration x)) (processed_data st) =
      concat (map (\<lambda>it. map (\<lambda>r. (r, it)) (filter (\<lambda>r. it = 1 \<or> \<not> blank r) (selected p 0 data)))
               [1..iterations p])"
    by (simp add: kept_all_def kept_def)
qed

end
